theory Spec2Isabelle
  imports Complex_Main "HOL-Library.Word"
begin

section \<open>Strings as the program uses them\<close>

text \<open>
  Strings are lists of 8-bit characters. The source works on UTF-16 strings; the
  operations below are the ASCII part of \<^verbatim>\<open>trim\<close>, \<^verbatim>\<open>toLowerCase\<close>,
  \<^verbatim>\<open>split\<close>, \<^verbatim>\<open>pop\<close>, \<^verbatim>\<open>Array.includes\<close>, \<^verbatim>\<open>parseInt\<close> and
  \<^verbatim>\<open>Number.prototype.toString\<close>.
\<close>

definition isWhiteSpace :: "char \<Rightarrow> bool" where
  "isWhiteSpace c = (c \<in> set [CHR '' '', CHR 0x09, CHR 0x0A, CHR 0x0B, CHR 0x0C, CHR 0x0D])"

definition trim :: "string \<Rightarrow> string" where
  "trim s = rev (dropWhile isWhiteSpace (rev (dropWhile isWhiteSpace s)))"

definition lowerChar :: "char \<Rightarrow> char" where
  "lowerChar c =
     (let n = (of_char c :: nat) in if 65 \<le> n \<and> n \<le> 90 then char_of (n + 32) else c)"

definition toLowerCase :: "string \<Rightarrow> string" where
  "toLowerCase s = map lowerChar s"

text \<open>\<^verbatim>\<open>s.split(c)\<close> for a one-character separator: never an empty array.\<close>

fun split :: "char \<Rightarrow> string \<Rightarrow> string list" where
  "split c [] = [[]]"
| "split c (x # xs) =
     (if x = c then [] # split c xs
      else (case split c xs of [] \<Rightarrow> [[x]] | y # ys \<Rightarrow> (x # y) # ys))"

text \<open>\<^verbatim>\<open>arr.pop()\<close>: the last element, \<^verbatim>\<open>undefined\<close> (here \<open>None\<close>) on an empty array.\<close>

definition pop :: "'a list \<Rightarrow> 'a option" where
  "pop xs = (case rev xs of [] \<Rightarrow> None | x # _ \<Rightarrow> Some x)"

definition includes_arr :: "'a list \<Rightarrow> 'a \<Rightarrow> bool" where
  "includes_arr xs x = (x \<in> set xs)"

definition digitChar :: "nat \<Rightarrow> char" where
  "digitChar d = ''0123456789'' ! d"

text \<open>\<^verbatim>\<open>n.toString()\<close> for a non-negative integer: its decimal digits.\<close>

fun toString :: "nat \<Rightarrow> string" where
  "toString n = (if n < 10 then [digitChar n] else toString (n div 10) @ [digitChar (n mod 10)])"

declare toString.simps [simp del]

definition isDigit :: "char \<Rightarrow> bool" where
  "isDigit c = (let n = (of_char c :: nat) in 48 \<le> n \<and> n \<le> 57)"

definition digitsValue :: "string \<Rightarrow> nat" where
  "digitsValue ds = foldl (\<lambda>acc c. 10 * acc + (of_char c - 48)) 0 ds"

text \<open>
  \<^verbatim>\<open>parseInt(s, 10)\<close>: leading white space is skipped, one sign is read, then the
  longest run of decimal digits; \<open>None\<close> is \<^verbatim>\<open>NaN\<close> (no digit there). The value is
  exact here; the source holds it in a double.
\<close>

definition parseInt :: "string \<Rightarrow> int option" where
  "parseInt s =
     (let s1 = dropWhile isWhiteSpace s;
          neg = (case s1 of [] \<Rightarrow> False | c # _ \<Rightarrow> c = CHR ''-'');
          s2 = (case s1 of [] \<Rightarrow> [] | c # r \<Rightarrow> if c = CHR ''-'' \<or> c = CHR ''+'' then r else s1);
          ds = takeWhile isDigit s2
      in if ds = [] then None
         else Some (if neg then - int (digitsValue ds) else int (digitsValue ds)))"

section \<open>URL classifier\<close>

text \<open>
  \<^verbatim>\<open>new URL(url)\<close> belongs to the platform, not to the repository. The functions
  that call it take it as the parameter \<open>parse\<close>: the \<^verbatim>\<open>pathname\<close> of the parsed
  URL, or \<open>None\<close> where the constructor throws its \<^verbatim>\<open>TypeError\<close>.
\<close>

datatype exn = InvalidURL | NetworkFailure | HttpError nat | ReadFailure

datatype mediaType = Image | Video

type_synonym urlParser = "string \<Rightarrow> string option"

definition getFileExtension :: "urlParser \<Rightarrow> string \<Rightarrow> exn + string" where
  "getFileExtension parse url =
     (case parse url of
        None \<Rightarrow> Inl InvalidURL
      | Some path \<Rightarrow>
          Inr (case pop (split CHR ''.'' path) of
                 None \<Rightarrow> []
               | Some e \<Rightarrow> (if toLowerCase e = [] then [] else toLowerCase e)))"

definition imageExts :: "string list" where
  "imageExts = [''jpg'', ''jpeg'', ''png'', ''gif'', ''webp'', ''svg'', ''bmp'']"

definition videoExts :: "string list" where
  "videoExts = [''mp4'', ''webm'', ''avi'', ''mov'', ''wmv'', ''flv'', ''mkv'']"

definition getMediaType :: "urlParser \<Rightarrow> string \<Rightarrow> exn + mediaType" where
  "getMediaType parse url =
     (case getFileExtension parse url of
        Inl e \<Rightarrow> Inl e
      | Inr ext \<Rightarrow>
          if includes_arr imageExts ext then Inr Image
          else if includes_arr videoExts ext then Inr Video
          else Inr Image)"

text \<open>
  \<open>generateFilename\<close>: the body of the \<^verbatim>\<open>try\<close> block first, then the function with
  its \<^verbatim>\<open>catch\<close> handler, which itself calls \<open>getFileExtension\<close>. \<open>now\<close> is the
  value of \<^verbatim>\<open>Date.now()\<close>.
\<close>

definition generateFilename_try :: "urlParser \<Rightarrow> string \<Rightarrow> exn + string" where
  "generateFilename_try parse url =
     (case parse url of
        None \<Rightarrow> Inl InvalidURL
      | Some path \<Rightarrow>
          (let filename = (case pop (split CHR ''/'' path) of
                             None \<Rightarrow> ''download''
                           | Some f \<Rightarrow> if f = [] then ''download'' else f)
           in if includes_arr filename CHR ''.'' then Inr filename
              else (case getFileExtension parse url of
                      Inl e \<Rightarrow> Inl e
                    | Inr ext \<Rightarrow> Inr (filename @ ''.'' @ ext))))"

definition generateFilename :: "urlParser \<Rightarrow> nat \<Rightarrow> string \<Rightarrow> exn + string" where
  "generateFilename parse now url =
     (case generateFilename_try parse url of
        Inr name \<Rightarrow> Inr name
      | Inl _ \<Rightarrow>
          (case getFileExtension parse url of
             Inl e \<Rightarrow> Inl e
           | Inr ext \<Rightarrow> Inr (''download_'' @ toString now @ ''.'' @ ext)))"

text \<open>
  A sample of the platform's parser, for the examples. It follows the platform on four
  shapes of input; on any other string it answers \<open>None\<close>, which need not be the
  platform's answer, and no statement below relies on it there. A string without a
  colon has no scheme and is rejected; \<^verbatim>\<open>http://\<close> and \<^verbatim>\<open>https://\<close> alone have an
  empty host and are rejected; \<^verbatim>\<open>http(s)://host/path\<close> with a plain host and a plain
  path without dot segments has that path as its pathname (\<^verbatim>\<open>/\<close> when the path is
  empty); and
  \<^verbatim>\<open>scheme:rest\<close> with a scheme that is not special and an alphanumeric rest has the
  opaque path \<^verbatim>\<open>rest\<close>. Every general statement below is about an arbitrary
  \<open>parse\<close>; the sample only instantiates it.
\<close>

fun stripPrefix :: "string \<Rightarrow> string \<Rightarrow> string option" where
  "stripPrefix [] s = Some s"
| "stripPrefix (p # ps) [] = None"
| "stripPrefix (p # ps) (c # cs) = (if p = c then stripPrefix ps cs else None)"

definition isLower :: "char \<Rightarrow> bool" where
  "isLower c = (let n = (of_char c :: nat) in 97 \<le> n \<and> n \<le> 122)"

definition isAlnum :: "char \<Rightarrow> bool" where
  "isAlnum c = (let n = (of_char c :: nat) in
     (97 \<le> n \<and> n \<le> 122) \<or> (65 \<le> n \<and> n \<le> 90) \<or> (48 \<le> n \<and> n \<le> 57))"

definition isPathChar :: "char \<Rightarrow> bool" where
  "isPathChar c = (isAlnum c \<or> c \<in> set [CHR ''/'', CHR ''.'', CHR ''-'', CHR ''_''])"

definition specialSchemes :: "string list" where
  "specialSchemes = [''http'', ''https'', ''ftp'', ''file'', ''ws'', ''wss'']"

definition hierarchicalPath :: "string \<Rightarrow> string option" where
  "hierarchicalPath rest =
     (let host = takeWhile (\<lambda>c. c \<noteq> CHR ''/'') rest;
          path = dropWhile (\<lambda>c. c \<noteq> CHR ''/'') rest
      in if host = [] \<or> \<not> list_all (\<lambda>c. isLower c \<or> c = CHR ''.'') host
            \<or> \<not> isLower (hd host) \<or> \<not> isLower (last host)
            \<or> \<not> list_all isPathChar path
            \<or> includes_arr (split CHR ''/'' path) ''.''
            \<or> includes_arr (split CHR ''/'' path) ''..''
         then None
         else Some (if path = [] then ''/'' else path))"

definition URL_pathname :: urlParser where
  "URL_pathname url =
     (if \<not> includes_arr url CHR '':'' then None
      else (case stripPrefix ''https://'' url of
              Some rest \<Rightarrow> hierarchicalPath rest
            | None \<Rightarrow>
               (case stripPrefix ''http://'' url of
                  Some rest \<Rightarrow> hierarchicalPath rest
                | None \<Rightarrow>
                    (let scheme = takeWhile (\<lambda>c. c \<noteq> CHR '':'') url;
                         rest = drop 1 (dropWhile (\<lambda>c. c \<noteq> CHR '':'') url)
                     in if scheme \<noteq> [] \<and> list_all isLower scheme
                           \<and> \<not> includes_arr specialSchemes scheme
                           \<and> rest \<noteq> [] \<and> list_all isAlnum rest
                        then Some rest else None))))"

section \<open>Data model\<close>

datatype status = Pending | Downloading | Completed | Error

text \<open>
  The two interfaces of the source. The fields are prefixed, since both interfaces
  name theirs \<^verbatim>\<open>id\<close>, \<^verbatim>\<open>filename\<close>, \<^verbatim>\<open>url\<close> and \<^verbatim>\<open>type\<close>. An optional field
  is an \<open>option\<close>. \<^verbatim>\<open>progress\<close> is a JavaScript number; it is a rational here, the
  exact value of the quotient the source rounds to a double. \<^verbatim>\<open>downloadedAt\<close> is the
  time value of the \<^verbatim>\<open>Date\<close>.
\<close>

record MediaItem =
  m_id :: string
  m_url :: string
  m_type :: mediaType
  m_filename :: string
  m_size :: "string option"
  m_status :: status
  m_progress :: "rat option"
  m_downloadUrl :: "string option"

record DownloadHistory =
  h_id :: string
  h_filename :: string
  h_url :: string
  h_type :: mediaType
  h_downloadedAt :: nat

type_synonym bytes = "8 word list"

text \<open>
  The state of the component: the two \<^verbatim>\<open>useState\<close> cells the queue manager owns,
  and \<open>effects\<close>, a record (not in the source) of what the code did to the outside
  and in which order: each update pushed to the item store, each file offered for
  saving, each \<^verbatim>\<open>console.error\<close>, each awaited timeout.
\<close>

datatype effect =
    Patched string "status option" "rat option"
  | Saved string bytes
  | Logged exn
  | Delayed nat

record app =
  mediaItems :: "MediaItem list"
  downloadHistory :: "DownloadHistory list"
  effects :: "effect list"

definition initial :: app where
  "initial = \<lparr>mediaItems = [], downloadHistory = [], effects = []\<rparr>"

section \<open>Queue store\<close>

text \<open>
  \<open>addMediaItem\<close>. The object literal is evaluated field by field, so \<open>getMediaType\<close>
  and \<open>generateFilename\<close> run (and may throw) before the store is touched.
\<close>

definition addMediaItem :: "urlParser \<Rightarrow> nat \<Rightarrow> string \<Rightarrow> app \<Rightarrow> exn + app" where
  "addMediaItem parse now url s =
     (let trimmedUrl = trim url in
      if trimmedUrl = [] \<or> list_ex (\<lambda>item. m_url item = trimmedUrl) (mediaItems s) then Inr s
      else (case getMediaType parse trimmedUrl of
              Inl e \<Rightarrow> Inl e
            | Inr ty \<Rightarrow>
               (case generateFilename parse now trimmedUrl of
                  Inl e \<Rightarrow> Inl e
                | Inr name \<Rightarrow>
                    Inr (s\<lparr>mediaItems := mediaItems s @
                          [\<lparr>m_id = toString now, m_url = trimmedUrl, m_type = ty,
                            m_filename = name, m_size = None, m_status = Pending,
                            m_progress = None, m_downloadUrl = None\<rparr>]\<rparr>))))"

definition removeMediaItem :: "string \<Rightarrow> app \<Rightarrow> app" where
  "removeMediaItem ident s =
     s\<lparr>mediaItems := filter (\<lambda>item. m_id item \<noteq> ident) (mediaItems s)\<rparr>"

definition clearCompleted :: "app \<Rightarrow> app" where
  "clearCompleted s =
     s\<lparr>mediaItems := filter (\<lambda>item. m_status item \<noteq> Completed) (mediaItems s)\<rparr>"

definition clearHistory :: "app \<Rightarrow> app" where
  "clearHistory s = s\<lparr>downloadHistory := []\<rparr>"

text \<open>
  The four \<^verbatim>\<open>setMediaItems(prev => prev.map(i => i.id === item.id ? {...i, fields} : i))\<close>
  calls of \<open>downloadFile\<close> differ only in the fields they merge: \<open>updateItem\<close> is
  that call, with the fields left alone as \<open>None\<close>, and records itself in \<open>effects\<close>.
\<close>

definition mergeFields :: "status option \<Rightarrow> rat option \<Rightarrow> MediaItem \<Rightarrow> MediaItem" where
  "mergeFields st pr i =
     i\<lparr>m_status := (case st of None \<Rightarrow> m_status i | Some v \<Rightarrow> v),
       m_progress := (case pr of None \<Rightarrow> m_progress i | Some p \<Rightarrow> Some p)\<rparr>"

definition updateItem :: "string \<Rightarrow> status option \<Rightarrow> rat option \<Rightarrow> app \<Rightarrow> app" where
  "updateItem ident st pr s =
     s\<lparr>mediaItems := map (\<lambda>i. if m_id i = ident then mergeFields st pr i else i) (mediaItems s),
       effects := effects s @ [Patched ident st pr]\<rparr>"

section \<open>Transfer engine\<close>

text \<open>
  The transport. A response carries its status code, the value of its
  \<^verbatim>\<open>content-length\<close> header (\<open>None\<close> when \<^verbatim>\<open>headers.get\<close> gives \<^verbatim>\<open>null\<close>) and
  its body (\<open>None\<close> when \<^verbatim>\<open>response.body\<close> is \<^verbatim>\<open>null\<close>). A body is a reader: the
  result of its \<open>k\<close>-th \<^verbatim>\<open>read()\<close>, which may deliver chunks for ever. A world is
  what one call of \<open>downloadFile\<close> meets: the transport and the two clock readings
  \<^verbatim>\<open>Date.now()\<close> and \<^verbatim>\<open>new Date()\<close>.
\<close>

datatype readResult = Chunk bytes | Done | ReadError

type_synonym reader = "nat \<Rightarrow> readResult"

record response =
  r_status :: nat
  r_contentLength :: "string option"
  r_body :: "reader option"

datatype fetchResult = Rejected | Resolved response

record world =
  fetch :: "string \<Rightarrow> fetchResult"
  dateNow :: nat
  newDate :: nat

definition ok :: "response \<Rightarrow> bool" where
  "ok r = (200 \<le> r_status r \<and> r_status r \<le> 299)"

text \<open>\<^verbatim>\<open>contentLength ? parseInt(contentLength, 10) : 0\<close>; \<open>None\<close> is \<^verbatim>\<open>NaN\<close>.\<close>

definition totalOf :: "string option \<Rightarrow> int option" where
  "totalOf contentLength =
     (case contentLength of
        None \<Rightarrow> Some 0
      | Some cl \<Rightarrow> if cl = [] then Some 0 else parseInt cl)"

text \<open>\<^verbatim>\<open>total > 0\<close>, false for \<^verbatim>\<open>NaN\<close>.\<close>

definition positive :: "int option \<Rightarrow> bool" where
  "positive tot = (case tot of None \<Rightarrow> False | Some t \<Rightarrow> 0 < t)"

text \<open>\<^verbatim>\<open>(received / total) * 100\<close>, read only where \<^verbatim>\<open>total > 0\<close>.\<close>

definition percent :: "int option \<Rightarrow> nat \<Rightarrow> rat" where
  "percent tot received =
     (case tot of None \<Rightarrow> 0 | Some t \<Rightarrow> (of_nat received / of_int t) * 100)"

text \<open>
  The \<^verbatim>\<open>while (true)\<close> loop, at its \<open>k\<close>-th read. It returns the chunks when the
  reader is done, throws when a read fails, and does not return (\<open>None\<close>) on a reader
  that never ends. The updates it pushed stay in the state it hands back either way.
\<close>

partial_function (option) readLoop ::
  "reader \<Rightarrow> nat \<Rightarrow> int option \<Rightarrow> string \<Rightarrow> nat \<Rightarrow> bytes list \<Rightarrow> app
     \<Rightarrow> ((exn + bytes list) \<times> app) option"
where
  "readLoop rd k tot ident received chunks s =
     (case rd k of
        ReadError \<Rightarrow> Some (Inl ReadFailure, s)
      | Done \<Rightarrow> Some (Inr chunks, s)
      | Chunk v \<Rightarrow>
          readLoop rd (Suc k) tot ident (received + length v) (chunks @ [v])
            (if positive tot
             then updateItem ident None (Some (percent tot (received + length v))) s
             else s))"

text \<open>
  After the loop: the blob is offered for saving under the item's filename, the item
  is completed, and the history gets its entry at the head of the first 49 it had.
\<close>

definition complete :: "world \<Rightarrow> MediaItem \<Rightarrow> bytes list \<Rightarrow> app \<Rightarrow> app" where
  "complete w item chunks s =
     (let s1 = s\<lparr>effects := effects s @ [Saved (m_filename item) (concat chunks)]\<rparr>;
          s2 = updateItem (m_id item) (Some Completed) (Some 100) s1;
          historyItem = \<lparr>h_id = toString (dateNow w), h_filename = m_filename item,
                          h_url = m_url item, h_type = m_type item,
                          h_downloadedAt = newDate w\<rparr>
      in s2\<lparr>downloadHistory := historyItem # take 49 (downloadHistory s2)\<rparr>)"

text \<open>The body of the \<^verbatim>\<open>try\<close> block: what it threw, if anything, and the state then.\<close>

definition downloadFile_try :: "world \<Rightarrow> MediaItem \<Rightarrow> app \<Rightarrow> (exn option \<times> app) option" where
  "downloadFile_try w item s =
     (case fetch w (m_url item) of
        Rejected \<Rightarrow> Some (Some NetworkFailure, s)
      | Resolved response \<Rightarrow>
          if \<not> ok response then Some (Some (HttpError (r_status response)), s)
          else
            (case (case r_body response of
                     None \<Rightarrow> Some (Inr [], s)
                   | Some rd \<Rightarrow>
                       readLoop rd 0 (totalOf (r_contentLength response)) (m_id item) 0 [] s) of
               None \<Rightarrow> None
             | Some (Inl e, s') \<Rightarrow> Some (Some e, s')
             | Some (Inr chunks, s') \<Rightarrow> Some (None, complete w item chunks s')))"

definition downloadFile :: "world \<Rightarrow> MediaItem \<Rightarrow> app \<Rightarrow> app option" where
  "downloadFile w item s =
     (case downloadFile_try w item (updateItem (m_id item) (Some Downloading) (Some 0) s) of
        None \<Rightarrow> None
      | Some (None, s') \<Rightarrow> Some s'
      | Some (Some e, s') \<Rightarrow>
          Some (updateItem (m_id item) (Some Error) None
                  (s'\<lparr>effects := effects s' @ [Logged e]\<rparr>)))"

section \<open>Batch orchestrator\<close>

text \<open>
  \<open>downloadAll\<close>: the \<^verbatim>\<open>for\<close> loop over the items that were pending when it was
  called. The \<open>k\<close>-th call of \<open>downloadFile\<close> meets the world \<open>ws k\<close>.
\<close>

fun downloadEach :: "(nat \<Rightarrow> world) \<Rightarrow> nat \<Rightarrow> MediaItem list \<Rightarrow> app \<Rightarrow> app option" where
  "downloadEach ws k [] s = Some s"
| "downloadEach ws k (item # rest) s =
     (case downloadFile (ws k) item s of
        None \<Rightarrow> None
      | Some s' \<Rightarrow> downloadEach ws (Suc k) rest (s'\<lparr>effects := effects s' @ [Delayed 500]\<rparr>))"

definition pendingItems :: "app \<Rightarrow> MediaItem list" where
  "pendingItems s = filter (\<lambda>item. m_status item = Pending) (mediaItems s)"

definition downloadAll :: "(nat \<Rightarrow> world) \<Rightarrow> app \<Rightarrow> app option" where
  "downloadAll ws s = downloadEach ws 0 (pendingItems s) s"

section \<open>The commands of the presentation layer\<close>

text \<open>
  What the view can trigger, one command at a time: each command has settled before
  the next starts, so a download started by hand while a batch is running is outside
  this relation. A command that throws leaves the state as it was (\<open>addMediaItem\<close>
  throws before it touches the store); a command that never settles has no next
  state.
\<close>

datatype command =
    AddMediaItem nat string
  | RemoveMediaItem string
  | DownloadFile world MediaItem
  | DownloadAll "nat \<Rightarrow> world"
  | ClearCompleted
  | ClearHistory

fun exec :: "urlParser \<Rightarrow> command \<Rightarrow> app \<Rightarrow> app option" where
  "exec parse (AddMediaItem now url) s =
     (case addMediaItem parse now url s of Inl e \<Rightarrow> Some s | Inr s' \<Rightarrow> Some s')"
| "exec parse (RemoveMediaItem ident) s = Some (removeMediaItem ident s)"
| "exec parse (DownloadFile w item) s = downloadFile w item s"
| "exec parse (DownloadAll ws) s = downloadAll ws s"
| "exec parse ClearCompleted s = Some (clearCompleted s)"
| "exec parse ClearHistory s = Some (clearHistory s)"

inductive reachable :: "urlParser \<Rightarrow> app \<Rightarrow> bool" for parse :: urlParser where
  start: "reachable parse initial"
| step: "reachable parse s \<Longrightarrow> exec parse c s = Some s' \<Longrightarrow> reachable parse s'"

section \<open>Observations\<close>

text \<open>
  What the statements below read off a run. The updates of \<open>status\<close> and the awaited
  delays, in the order they happened; the values of \<open>progress\<close> pushed, and those
  pushed chunk by chunk (the updates that carry no status).
\<close>

datatype mark = Became string status | Waited nat

fun markOf :: "effect \<Rightarrow> mark list" where
  "markOf (Patched ident (Some st) pr) = [Became ident st]"
| "markOf (Delayed n) = [Waited n]"
| "markOf e = []"

definition marks :: "effect list \<Rightarrow> mark list" where
  "marks es = concat (map markOf es)"

fun progressOf :: "effect \<Rightarrow> rat list" where
  "progressOf (Patched ident st (Some p)) = [p]"
| "progressOf e = []"

definition progressPushed :: "effect list \<Rightarrow> rat list" where
  "progressPushed es = concat (map progressOf es)"

fun chunkProgressOf :: "effect \<Rightarrow> rat list" where
  "chunkProgressOf (Patched ident None (Some p)) = [p]"
| "chunkProgressOf e = []"

definition chunkProgress :: "effect list \<Rightarrow> rat list" where
  "chunkProgress es = concat (map chunkProgressOf es)"

text \<open>
  The store after a list of effects: each recorded update applied, in order, the way
  \<open>updateItem\<close> applies it.
\<close>

fun applyEffect :: "effect \<Rightarrow> MediaItem list \<Rightarrow> MediaItem list" where
  "applyEffect (Patched ident st pr) items =
     map (\<lambda>i. if m_id i = ident then mergeFields st pr i else i) items"
| "applyEffect e items = items"

definition replay :: "effect list \<Rightarrow> MediaItem list \<Rightarrow> MediaItem list" where
  "replay es items = foldl (\<lambda>m e. applyEffect e m) items es"

text \<open>The effects a run added to those of the state it started from.\<close>

definition added :: "app \<Rightarrow> app \<Rightarrow> effect list" where
  "added s s' = drop (length (effects s)) (effects s')"

text \<open>
  Readers that end. \<open>endsAt rd n\<close>: the first \<open>n\<close> reads deliver chunks and read
  \<open>n\<close> is the first that does not. \<open>chunksUpTo rd n\<close> are those chunks and
  \<open>received r vs\<close> the byte counts after each of them, starting from \<open>r\<close>.
\<close>

fun isChunk :: "readResult \<Rightarrow> bool" where
  "isChunk (Chunk v) = True"
| "isChunk r = False"

fun chunkOf :: "readResult \<Rightarrow> bytes" where
  "chunkOf (Chunk v) = v"
| "chunkOf r = []"

definition endsAt :: "reader \<Rightarrow> nat \<Rightarrow> bool" where
  "endsAt rd n = (list_all (\<lambda>k. isChunk (rd k)) [0..<n] \<and> \<not> isChunk (rd n))"

definition chunksUpTo :: "reader \<Rightarrow> nat \<Rightarrow> bytes list" where
  "chunksUpTo rd n = map (\<lambda>k. chunkOf (rd k)) [0..<n]"

fun received :: "nat \<Rightarrow> bytes list \<Rightarrow> nat list" where
  "received r [] = []"
| "received r (v # vs) = (r + length v) # received (r + length v) vs"

text \<open>The updates the loop pushes on a finite run of chunks.\<close>

fun feed :: "int option \<Rightarrow> string \<Rightarrow> nat \<Rightarrow> bytes list \<Rightarrow> app \<Rightarrow> app" where
  "feed tot ident r [] s = s"
| "feed tot ident r (v # vs) s =
     feed tot ident (r + length v) vs
       (if positive tot then updateItem ident None (Some (percent tot (r + length v))) s else s)"

text \<open>The \<open>progress\<close> of an item after such a run of chunks, \<open>p\<close> being its value before.\<close>

definition progressAfter :: "int option \<Rightarrow> nat \<Rightarrow> bytes list \<Rightarrow> rat option \<Rightarrow> rat option" where
  "progressAfter tot r vs p =
     (if positive tot \<and> vs \<noteq> [] then Some (percent tot (last (received r vs))) else p)"

text \<open>
  The ways a run can go, for a reader that ends at read \<open>n\<close>. \<open>succeeds\<close>: the
  request resolves with a success status and the body, if there is one, ends with
  \<^verbatim>\<open>done\<close>. \<open>fails\<close>: the request is rejected, or the status is not a success, or a
  read fails. \<open>settles\<close>: one or the other.
\<close>

definition succeeds :: "world \<Rightarrow> MediaItem \<Rightarrow> nat \<Rightarrow> bool" where
  "succeeds w item n =
     (case fetch w (m_url item) of
        Rejected \<Rightarrow> False
      | Resolved r \<Rightarrow>
          ok r \<and> (case r_body r of None \<Rightarrow> True | Some rd \<Rightarrow> endsAt rd n \<and> rd n = Done))"

definition fails :: "world \<Rightarrow> MediaItem \<Rightarrow> nat \<Rightarrow> bool" where
  "fails w item n =
     (case fetch w (m_url item) of
        Rejected \<Rightarrow> True
      | Resolved r \<Rightarrow>
          (if ok r
           then (case r_body r of None \<Rightarrow> False | Some rd \<Rightarrow> endsAt rd n \<and> rd n = ReadError)
           else True))"

definition settles :: "world \<Rightarrow> MediaItem \<Rightarrow> nat \<Rightarrow> bool" where
  "settles w item n = (succeeds w item n \<or> fails w item n)"

definition outcome :: "world \<Rightarrow> MediaItem \<Rightarrow> nat \<Rightarrow> status" where
  "outcome w item n = (if succeeds w item n then Completed else Error)"

text \<open>
  What a run that settles got from the transport: the chunks read before the reader
  ended, the total the length header declared, and the exception of a failed run.
\<close>

definition bodyChunks :: "world \<Rightarrow> MediaItem \<Rightarrow> nat \<Rightarrow> bytes list" where
  "bodyChunks w item n =
     (case fetch w (m_url item) of
        Rejected \<Rightarrow> []
      | Resolved r \<Rightarrow>
          (if ok r then (case r_body r of None \<Rightarrow> [] | Some rd \<Rightarrow> chunksUpTo rd n) else []))"

definition declaredTotal :: "world \<Rightarrow> MediaItem \<Rightarrow> int option" where
  "declaredTotal w item =
     (case fetch w (m_url item) of
        Rejected \<Rightarrow> Some 0
      | Resolved r \<Rightarrow> totalOf (r_contentLength r))"

definition thrown :: "world \<Rightarrow> MediaItem \<Rightarrow> exn" where
  "thrown w item =
     (case fetch w (m_url item) of
        Rejected \<Rightarrow> NetworkFailure
      | Resolved r \<Rightarrow> if ok r then ReadFailure else HttpError (r_status r))"

text \<open>
  The effects of a run that settles, in order: the item goes to \<open>Downloading\<close> with
  progress 0, one update per chunk when the total is positive, then either the save and
  the completion or the log entry and the error. \<open>afterRun\<close> is the state it leaves.
\<close>

definition chunkPatches :: "int option \<Rightarrow> string \<Rightarrow> bytes list \<Rightarrow> effect list" where
  "chunkPatches tot ident cs =
     (if positive tot
      then map (\<lambda>x. Patched ident None (Some (percent tot x))) (received 0 cs)
      else [])"

definition runEffects :: "world \<Rightarrow> MediaItem \<Rightarrow> nat \<Rightarrow> effect list" where
  "runEffects w item n =
     Patched (m_id item) (Some Downloading) (Some 0) #
     chunkPatches (declaredTotal w item) (m_id item) (bodyChunks w item n) @
     (if succeeds w item n
      then [Saved (m_filename item) (concat (bodyChunks w item n)),
            Patched (m_id item) (Some Completed) (Some 100)]
      else [Logged (thrown w item), Patched (m_id item) (Some Error) None])"

definition finalProgress :: "world \<Rightarrow> MediaItem \<Rightarrow> nat \<Rightarrow> rat option" where
  "finalProgress w item n =
     (if succeeds w item n then Some 100
      else progressAfter (declaredTotal w item) 0 (bodyChunks w item n) (Some 0))"

text \<open>The history entry of a completed run, and the bounded insertion at the head.\<close>

definition historyItemOf :: "world \<Rightarrow> MediaItem \<Rightarrow> DownloadHistory" where
  "historyItemOf w item =
     \<lparr>h_id = toString (dateNow w), h_filename = m_filename item, h_url = m_url item,
      h_type = m_type item, h_downloadedAt = newDate w\<rparr>"

definition boundedAppend :: "DownloadHistory \<Rightarrow> DownloadHistory list \<Rightarrow> DownloadHistory list" where
  "boundedAppend e h = e # take 49 h"

definition afterRun :: "world \<Rightarrow> MediaItem \<Rightarrow> nat \<Rightarrow> app \<Rightarrow> app" where
  "afterRun w item n s =
     \<lparr>mediaItems =
        map (\<lambda>i. if m_id i = m_id item
                 then i\<lparr>m_status := outcome w item n, m_progress := finalProgress w item n\<rparr>
                 else i) (mediaItems s),
      downloadHistory =
        (if succeeds w item n then boundedAppend (historyItemOf w item) (downloadHistory s)
         else downloadHistory s),
      effects = effects s @ runEffects w item n\<rparr>"

text \<open>
  What a batch is to leave in \<open>marks\<close>, the \<open>k\<close>-th run settling at read \<open>ns k\<close>:
  for each item in turn, \<open>Downloading\<close>, its terminal status, and the delay.
\<close>

fun batchMarks :: "(nat \<Rightarrow> world) \<Rightarrow> (nat \<Rightarrow> nat) \<Rightarrow> nat \<Rightarrow> MediaItem list \<Rightarrow> mark list" where
  "batchMarks ws ns k [] = []"
| "batchMarks ws ns k (item # rest) =
     [Became (m_id item) Downloading, Became (m_id item) (outcome (ws k) item (ns k)),
      Waited 500] @ batchMarks ws ns (Suc k) rest"

text \<open>
  The history entries a batch is to leave, oldest first: one for each run that
  succeeds, none for a run that fails.
\<close>

fun batchEntries ::
  "(nat \<Rightarrow> world) \<Rightarrow> (nat \<Rightarrow> nat) \<Rightarrow> nat \<Rightarrow> MediaItem list \<Rightarrow> DownloadHistory list" where
  "batchEntries ws ns k [] = []"
| "batchEntries ws ns k (item # rest) =
     (if succeeds (ws k) item (ns k) then [historyItemOf (ws k) item] else []) @
     batchEntries ws ns (Suc k) rest"

text \<open>Calls of \<open>downloadFile\<close> one after the other, each awaited before the next.\<close>

fun downloadSeq :: "(world \<times> MediaItem) list \<Rightarrow> app \<Rightarrow> app option" where
  "downloadSeq [] s = Some s"
| "downloadSeq ((w, item) # rest) s =
     (case downloadFile w item s of None \<Rightarrow> None | Some s' \<Rightarrow> downloadSeq rest s')"

section \<open>Sample inputs\<close>

text \<open>
  An item as \<open>addMediaItem\<close> builds it, a transport that delivers five bytes in two
  chunks under a length header of 5, one whose second read fails, one that answers
  404, one that delivers twenty bytes under a length header of 10 (as a compressed
  body does: the header counts the encoded bytes, the reader delivers the decoded
  ones), and the store that holds the item. Then a store of three items, the second
  of them downloading, and the worlds of a batch whose first run meets the 404.
\<close>

definition sampleItem :: MediaItem where
  "sampleItem =
     \<lparr>m_id = ''1000'', m_url = ''https://x.test/pic.JPG'', m_type = Image,
      m_filename = ''pic.JPG'', m_size = None, m_status = Pending, m_progress = None,
      m_downloadUrl = None\<rparr>"

definition goodReader :: reader where
  "goodReader k = (if k = 0 then Chunk [1, 2, 3] else if k = 1 then Chunk [4, 5] else Done)"

definition brokenReader :: reader where
  "brokenReader k = (if k = 0 then Chunk [1, 2, 3] else ReadError)"

definition goodWorld :: world where
  "goodWorld =
     \<lparr>fetch = (\<lambda>u. Resolved \<lparr>r_status = 200, r_contentLength = Some ''5'',
                                r_body = Some goodReader\<rparr>),
      dateNow = 2000, newDate = 2001\<rparr>"

definition brokenWorld :: world where
  "brokenWorld =
     \<lparr>fetch = (\<lambda>u. Resolved \<lparr>r_status = 200, r_contentLength = Some ''5'',
                                r_body = Some brokenReader\<rparr>),
      dateNow = 2000, newDate = 2001\<rparr>"

definition missingWorld :: world where
  "missingWorld =
     \<lparr>fetch = (\<lambda>u. Resolved \<lparr>r_status = 404, r_contentLength = None, r_body = None\<rparr>),
      dateNow = 2000, newDate = 2001\<rparr>"

definition overrunReader :: reader where
  "overrunReader k = (if k = 0 then Chunk (replicate 20 0) else Done)"

definition overrunWorld :: world where
  "overrunWorld =
     \<lparr>fetch = (\<lambda>u. Resolved \<lparr>r_status = 200, r_contentLength = Some ''10'',
                                r_body = Some overrunReader\<rparr>),
      dateNow = 2000, newDate = 2001\<rparr>"

definition itemA :: MediaItem where
  "itemA = sampleItem\<lparr>m_id := ''1'', m_url := ''https://x.test/a.png''\<rparr>"

definition itemB :: MediaItem where
  "itemB = sampleItem\<lparr>m_id := ''2'', m_url := ''https://x.test/b.png'',
                        m_status := Downloading, m_progress := Some 40\<rparr>"

definition itemC :: MediaItem where
  "itemC = sampleItem\<lparr>m_id := ''3'', m_url := ''https://x.test/c.png''\<rparr>"

definition mixed :: app where
  "mixed = \<lparr>mediaItems = [itemA, itemB, itemC], downloadHistory = [], effects = []\<rparr>"

definition mixedWorlds :: "nat \<Rightarrow> world" where
  "mixedWorlds k = (if k = 0 then missingWorld else goodWorld)"

definition queued :: app where
  "queued = \<lparr>mediaItems = [sampleItem], downloadHistory = [], effects = []\<rparr>"

section \<open>Facts about the string operations\<close>

lemma split_not_Nil: "split c s \<noteq> []"
  by (induction s) (auto split: list.splits)

lemma split_no_sep: "c \<notin> set s \<Longrightarrow> split c s = [s]"
  by (induction s) auto

lemma split_append_sep: "split c (xs @ c # ys) = split c xs @ split c ys"
  by (induction xs) (auto split: list.splits simp: split_not_Nil)

lemma pop_append: "ys \<noteq> [] \<Longrightarrow> pop (xs @ ys) = pop ys"
  by (cases ys rule: rev_cases) (auto simp: pop_def)

lemma pop_split_after: "c \<notin> set e \<Longrightarrow> pop (split c (pre @ c # e)) = Some e"
  by (simp add: split_append_sep pop_append split_not_Nil split_no_sep pop_def)

lemma pop_split_whole: "c \<notin> set s \<Longrightarrow> pop (split c s) = Some s"
  by (simp add: split_no_sep pop_def)

lemma lowerChar_slash: "lowerChar CHR ''/'' = CHR ''/''"
  by (simp add: lowerChar_def)

text \<open>Different numbers have different decimals.\<close>

lemma digitChar_inj:
  "a < 10 \<Longrightarrow> b < 10 \<Longrightarrow> digitChar a = digitChar b \<Longrightarrow> a = b"
proof -
  assume a: "a < 10" and b: "b < 10" and e: "digitChar a = digitChar b"
  have d: "distinct ''0123456789''" by simp
  have "length ''0123456789'' = 10" by simp
  then show "a = b"
    using a b e d nth_eq_iff_index_eq [of "''0123456789''" a b]
    unfolding digitChar_def by metis
qed

lemma toString_not_Nil: "toString n \<noteq> []"
  by (subst toString.simps) simp

lemma toString_inj: "toString a = toString b \<Longrightarrow> a = b"
proof (induction a arbitrary: b rule: toString.induct)
  case (1 a)
  show ?case
  proof (cases "a < 10")
    case True
    show ?thesis
    proof (cases "b < 10")
      case bs: True
      have "[digitChar a] = [digitChar b]"
        using "1.prems" True bs by (simp add: toString.simps)
      then show ?thesis using True bs digitChar_inj by simp
    next
      case bl: False
      have "toString b = toString (b div 10) @ [digitChar (b mod 10)]"
        using bl by (subst toString.simps) simp
      moreover have "toString a = [digitChar a]" using True by (subst toString.simps) simp
      ultimately have "toString (b div 10) = []" using "1.prems" by simp
      then show ?thesis using toString_not_Nil by blast
    qed
  next
    case False
    have ta: "toString a = toString (a div 10) @ [digitChar (a mod 10)]"
      using False by (subst toString.simps) simp
    show ?thesis
    proof (cases "b < 10")
      case True
      have "toString b = [digitChar b]" using True by (subst toString.simps) simp
      then have "toString (a div 10) = []" using ta "1.prems" by simp
      then show ?thesis using toString_not_Nil by blast
    next
      case bl: False
      have tb: "toString b = toString (b div 10) @ [digitChar (b mod 10)]"
        using bl by (subst toString.simps) simp
      from ta tb "1.prems" have q: "toString (a div 10) = toString (b div 10)"
        and r: "digitChar (a mod 10) = digitChar (b mod 10)"
        by simp_all
      have "a div 10 = b div 10" using "1.IH" [OF False q] .
      moreover have "a mod 10 = b mod 10"
        using r digitChar_inj [of "a mod 10" "b mod 10"] by simp
      ultimately show ?thesis by (metis div_mult_mod_eq)
    qed
  qed
qed

section \<open>Facts about the URL classifier\<close>

lemma getFileExtension_invalid:
  "parse url = None \<Longrightarrow> getFileExtension parse url = Inl InvalidURL"
  by (simp add: getFileExtension_def)

lemma getFileExtension_after_dot:
  "parse url = Some (pre @ CHR ''.'' # e) \<Longrightarrow> CHR ''.'' \<notin> set e \<Longrightarrow>
   getFileExtension parse url = Inr (toLowerCase e)"
  by (simp add: getFileExtension_def pop_split_after toLowerCase_def)

lemma getFileExtension_no_dot:
  "parse url = Some path \<Longrightarrow> CHR ''.'' \<notin> set path \<Longrightarrow>
   getFileExtension parse url = Inr (toLowerCase path)"
  by (simp add: getFileExtension_def pop_split_whole toLowerCase_def)

lemma getMediaType_invalid:
  "parse url = None \<Longrightarrow> getMediaType parse url = Inl InvalidURL"
  by (simp add: getMediaType_def getFileExtension_def)

lemma getMediaType_after_dot:
  "parse url = Some (pre @ CHR ''.'' # e) \<Longrightarrow> CHR ''.'' \<notin> set e \<Longrightarrow>
   getMediaType parse url =
     Inr (if toLowerCase e \<in> set imageExts then Image
          else if toLowerCase e \<in> set videoExts then Video else Image)"
  by (simp add: getMediaType_def getFileExtension_after_dot includes_arr_def)

lemma getMediaType_no_dot_slash:
  "parse url = Some (CHR ''/'' # p) \<Longrightarrow> CHR ''.'' \<notin> set p \<Longrightarrow>
   getMediaType parse url = Inr Image"
  by (simp add: getMediaType_def getFileExtension_no_dot includes_arr_def toLowerCase_def
      lowerChar_slash imageExts_def videoExts_def)

lemma generateFilename_invalid:
  "parse url = None \<Longrightarrow> generateFilename parse now url = Inl InvalidURL"
  by (simp add: generateFilename_def generateFilename_try_def getFileExtension_def)

lemma generateFilename_dotted:
  "parse url = Some (dir @ CHR ''/'' # seg) \<Longrightarrow> CHR ''/'' \<notin> set seg \<Longrightarrow>
   CHR ''.'' \<in> set seg \<Longrightarrow> generateFilename parse now url = Inr seg"
  by (auto simp add: generateFilename_def generateFilename_try_def pop_split_after
      includes_arr_def)

text \<open>The classifier on two URLs with an extension.\<close>

lemma classifier_example:
  "getMediaType URL_pathname ''https://x.test/pic.JPG'' = Inr Image
   \<and> generateFilename URL_pathname 1000 ''https://x.test/pic.JPG'' = Inr ''pic.JPG''
   \<and> getMediaType URL_pathname ''https://x.test/a/clip.MP4'' = Inr Video"
  by code_simp

section \<open>Facts about the classifier and the store on well-formed input\<close>

lemma slash_in_lower: "CHR ''/'' \<in> set p \<Longrightarrow> CHR ''/'' \<in> set (toLowerCase p)"
  using lowerChar_slash by (force simp add: toLowerCase_def)

lemma slashed_not_ext:
  "CHR ''/'' \<in> set p \<Longrightarrow> toLowerCase p \<notin> set imageExts \<and> toLowerCase p \<notin> set videoExts"
  using slash_in_lower [of p] by (auto simp add: imageExts_def videoExts_def)

lemma getFileExtension_wellformed:
  "parse url = Some path \<Longrightarrow> \<exists>ext. getFileExtension parse url = Inr ext"
  by (simp add: getFileExtension_def)

lemma getMediaType_wellformed:
  "parse url = Some path \<Longrightarrow> \<exists>ty. getMediaType parse url = Inr ty"
  by (auto simp add: getMediaType_def getFileExtension_def)

lemma generateFilename_wellformed:
  "parse url = Some path \<Longrightarrow> \<exists>name. generateFilename parse now url = Inr name"
  by (auto simp add: generateFilename_def generateFilename_try_def getFileExtension_def Let_def)

lemma addMediaItem_blank: "trim url = [] \<Longrightarrow> addMediaItem parse now url s = Inr s"
  by (simp add: addMediaItem_def)

lemma addMediaItem_duplicate:
  "list_ex (\<lambda>item. m_url item = trim url) (mediaItems s) \<Longrightarrow>
   addMediaItem parse now url s = Inr s"
  by (simp add: addMediaItem_def)

lemma addMediaItem_new:
  assumes "trim url \<noteq> []" and "\<not> list_ex (\<lambda>item. m_url item = trim url) (mediaItems s)"
    and "parse (trim url) = Some path"
  shows "\<exists>item. addMediaItem parse now url s = Inr (s\<lparr>mediaItems := mediaItems s @ [item]\<rparr>)
      \<and> m_status item = Pending \<and> m_url item = trim url \<and> m_id item = toString now
      \<and> getMediaType parse (trim url) = Inr (m_type item)
      \<and> generateFilename parse now (trim url) = Inr (m_filename item)"
proof -
  obtain ty where ty: "getMediaType parse (trim url) = Inr ty"
    using getMediaType_wellformed [of parse "trim url" path, OF assms(3)] by blast
  obtain name where name: "generateFilename parse now (trim url) = Inr name"
    using generateFilename_wellformed [of parse "trim url" path now, OF assms(3)] by blast
  let ?item = "\<lparr>m_id = toString now, m_url = trim url, m_type = ty, m_filename = name,
      m_size = None, m_status = Pending, m_progress = None, m_downloadUrl = None\<rparr>"
  have "addMediaItem parse now url s = Inr (s\<lparr>mediaItems := mediaItems s @ [?item]\<rparr>)"
    using assms(1,2) ty name by (simp add: addMediaItem_def)
  then show ?thesis
    using ty name by (intro exI [of _ ?item]) simp
qed

lemma addMediaItem_twice:
  assumes "trim url \<noteq> []" and "\<not> list_ex (\<lambda>item. m_url item = trim url) (mediaItems s)"
    and "parse (trim url) = Some path"
  shows "\<exists>s'. addMediaItem parse now url s = Inr s'
      \<and> length (mediaItems s') = Suc (length (mediaItems s))
      \<and> addMediaItem parse now' url s' = Inr s'"
proof -
  from addMediaItem_new [where parse = parse and url = url and now = now, OF assms] obtain item where
    a: "addMediaItem parse now url s = Inr (s\<lparr>mediaItems := mediaItems s @ [item]\<rparr>)"
    and u: "m_url item = trim url"
    by blast
  have "list_ex (\<lambda>i. m_url i = trim url) (mediaItems (s\<lparr>mediaItems := mediaItems s @ [item]\<rparr>))"
    using u by (simp add: list_ex_iff)
  then have "addMediaItem parse now' url (s\<lparr>mediaItems := mediaItems s @ [item]\<rparr>) =
      Inr (s\<lparr>mediaItems := mediaItems s @ [item]\<rparr>)"
    by (rule addMediaItem_duplicate)
  with a show ?thesis by simp
qed


section \<open>The classifier and the store on a URL that does not parse\<close>

text \<open>
  Claim C1. The claim has \<open>generateFilename\<close> return a fallback name for a URL that
  does not parse. The code does not: when \<^verbatim>\<open>new URL(url)\<close> throws, the \<^verbatim>\<open>try\<close>
  block throws, and the \<^verbatim>\<open>catch\<close> handler calls \<open>getFileExtension\<close>, which parses
  the same string again and throws in its turn. So for every string that does not
  parse, \<open>generateFilename\<close> raises the \<^verbatim>\<open>TypeError\<close> and returns no name.
\<close>

theorem generateFilename_raises:
  "parse url = None \<Longrightarrow>
   generateFilename_try parse url = Inl InvalidURL
   \<and> getFileExtension parse url = Inl InvalidURL
   \<and> generateFilename parse now url = Inl InvalidURL"
  by (simp add: generateFilename_def generateFilename_try_def getFileExtension_def)

theorem generateFilename_raises_witness:
  "URL_pathname ''http://'' = None
   \<and> generateFilename URL_pathname 1000 ''http://'' = Inl InvalidURL"
proof -
  have p: "URL_pathname ''http://'' = None" by code_simp
  from generateFilename_raises [where parse = URL_pathname and url = "''http://''" and now = 1000, OF p] p
  show ?thesis by simp
qed


text \<open>
  Claim C5. The claim has \<open>addMediaItem\<close> append one pending item for every url that
  is neither blank nor already stored. The code does so only when the trimmed url
  parses (\<open>addMediaItem_new\<close>, \<open>addMediaItem_twice\<close> above; blank and repeated urls
  leave the store alone, \<open>addMediaItem_blank\<close> and \<open>addMediaItem_duplicate\<close>). When
  it does not parse, \<open>getMediaType\<close> throws while the item is being built, and
  \<open>addMediaItem\<close> raises the \<^verbatim>\<open>TypeError\<close> with nothing appended.
\<close>

theorem addMediaItem_raises:
  "trim url \<noteq> [] \<Longrightarrow> \<not> list_ex (\<lambda>item. m_url item = trim url) (mediaItems s) \<Longrightarrow>
   parse (trim url) = None \<Longrightarrow> addMediaItem parse now url s = Inl InvalidURL"
  by (simp add: addMediaItem_def getMediaType_invalid)

theorem addMediaItem_raises_witness:
  "trim ''http://'' = ''http://'' \<and> URL_pathname ''http://'' = None
   \<and> addMediaItem URL_pathname 1000 ''http://'' initial = Inl InvalidURL"
proof -
  have t: "trim ''http://'' = ''http://''" by code_simp
  have p: "URL_pathname (trim ''http://'') = None" unfolding t by code_simp
  have e: "\<not> list_ex (\<lambda>item. m_url item = trim ''http://'') (mediaItems initial)"
    by (simp add: initial_def)
  have n: "trim ''http://'' \<noteq> []" unfolding t by simp
  from addMediaItem_raises [where parse = URL_pathname and url = "''http://''" and now = 1000, OF n e p] t p
  show ?thesis by simp
qed


section \<open>The classifier on a path without a dot\<close>

text \<open>
  Claim C6. \<open>getFileExtension\<close> takes what follows the last dot of the path, and the
  whole path when it has no dot. For a path with a dot the kind is the one the claim
  gives (\<open>getMediaType_after_dot\<close>), and a path without a dot that holds a slash is
  an image (\<open>getMediaType_no_dot_slash\<close>). But a path without a dot is classified by
  its whole lowercase text: a URL whose path is the bare word \<^verbatim>\<open>mp4\<close> has no
  extension, and is a video.
\<close>

theorem getMediaType_without_dot:
  "parse url = Some path \<Longrightarrow> CHR ''.'' \<notin> set path \<Longrightarrow>
   getFileExtension parse url = Inr (toLowerCase path)
   \<and> getMediaType parse url =
       Inr (if toLowerCase path \<in> set imageExts then Image
            else if toLowerCase path \<in> set videoExts then Video else Image)"
  by (simp add: getMediaType_def getFileExtension_no_dot includes_arr_def)

theorem getMediaType_without_dot_witness:
  "URL_pathname ''x:mp4'' = Some ''mp4'' \<and> CHR ''.'' \<notin> set ''mp4''
   \<and> getFileExtension URL_pathname ''x:mp4'' = Inr ''mp4''
   \<and> getMediaType URL_pathname ''x:mp4'' = Inr Video"
proof -
  have p: "URL_pathname ''x:mp4'' = Some ''mp4''" by code_simp
  have d: "CHR ''.'' \<notin> set ''mp4''" by simp
  have l: "toLowerCase ''mp4'' = ''mp4''" by code_simp
  from getMediaType_without_dot [where parse = URL_pathname and url = "''x:mp4''", OF p d] p d
  show ?thesis
    by (simp add: l imageExts_def videoExts_def)
qed


text \<open>
  Claim C8. For a URL whose path has no dot and whose last segment is not empty, the
  name \<open>generateFilename\<close> returns is the segment, a dot, and the whole lowercase path:
  \<^verbatim>\<open>clip./clip\<close> for \<^verbatim>\<open>https://x.test/clip\<close>, not \<^verbatim>\<open>clip.\<close> as the claim has it. The
  kind of such a URL is an image, as the claim says.
\<close>

theorem generateFilename_without_dot:
  assumes "parse url = Some (dir @ CHR ''/'' # seg)" and "seg \<noteq> []"
    and "CHR ''/'' \<notin> set seg" and "CHR ''.'' \<notin> set dir" and "CHR ''.'' \<notin> set seg"
  shows "generateFilename parse now url = Inr (seg @ ''.'' @ toLowerCase (dir @ CHR ''/'' # seg))
     \<and> generateFilename parse now url \<noteq> Inr (seg @ ''.'')
     \<and> getMediaType parse url = Inr Image"
proof -
  have nd: "CHR ''.'' \<notin> set (dir @ CHR ''/'' # seg)" using assms(4,5) by simp
  have g: "generateFilename parse now url = Inr (seg @ ''.'' @ toLowerCase (dir @ CHR ''/'' # seg))"
    using assms(1,2,3) nd
    by (simp add: generateFilename_def generateFilename_try_def pop_split_after includes_arr_def
        getFileExtension_no_dot assms(5))
  have ne: "toLowerCase (dir @ CHR ''/'' # seg) \<noteq> []" by (simp add: toLowerCase_def)
  have m: "getMediaType parse url = Inr Image"
    using slashed_not_ext [of "dir @ CHR ''/'' # seg"] assms(1) nd
    by (simp add: getMediaType_def getFileExtension_no_dot includes_arr_def)
  show ?thesis using g ne m by simp
qed

theorem generateFilename_without_dot_witness:
  "URL_pathname ''https://x.test/clip'' = Some ''/clip''
   \<and> generateFilename URL_pathname 1000 ''https://x.test/clip'' = Inr ''clip./clip''
   \<and> generateFilename URL_pathname 1000 ''https://x.test/clip'' \<noteq> Inr ''clip.''
   \<and> getMediaType URL_pathname ''https://x.test/clip'' = Inr Image"
proof -
  have p: "URL_pathname ''https://x.test/clip'' = Some ([] @ CHR ''/'' # ''clip'')" by code_simp
  have l: "toLowerCase ''/clip'' = ''/clip''" by code_simp
  from generateFilename_without_dot
    [where parse = URL_pathname and url = "''https://x.test/clip''" and dir = "[]"
       and seg = "''clip''" and now = 1000, OF p] p
  show ?thesis
    by (simp add: l)
qed

section \<open>Facts about the store and the read loop\<close>

lemma updateItem_history [simp]: "downloadHistory (updateItem i st pr s) = downloadHistory s"
  by (simp add: updateItem_def)

lemma updateItem_effects [simp]: "effects (updateItem i st pr s) = effects s @ [Patched i st pr]"
  by (simp add: updateItem_def)

lemma updateItem_items [simp]:
  "mediaItems (updateItem i st pr s) =
     map (\<lambda>x. if m_id x = i then mergeFields st pr x else x) (mediaItems s)"
  by (simp add: updateItem_def)

lemma mergeFields_id [simp]: "m_id (mergeFields st pr x) = m_id x"
  by (simp add: mergeFields_def)

lemma feed_history [simp]: "downloadHistory (feed tot ident r vs s) = downloadHistory s"
  by (induction vs arbitrary: r s) auto

lemma feed_effects:
  "effects (feed tot ident r vs s) =
     effects s @ (if positive tot
                  then map (\<lambda>x. Patched ident None (Some (percent tot x))) (received r vs)
                  else [])"
  by (induction vs arbitrary: r s) auto

lemma progressAfter_Cons:
  "progressAfter tot r (v # vs) p =
     progressAfter tot (r + length v) vs
       (if positive tot then Some (percent tot (r + length v)) else p)"
  by (cases vs) (simp_all add: progressAfter_def)

lemma feed_items:
  "mediaItems (feed tot ident r vs s) =
     map (\<lambda>i. if m_id i = ident
               then i\<lparr>m_progress := progressAfter tot r vs (m_progress i)\<rparr> else i)
       (mediaItems s)"
proof (induction vs arbitrary: r s)
  case Nil
  show ?case by (simp add: progressAfter_def map_idI)
next
  case (Cons v vs)
  have "mediaItems (feed tot ident r (v # vs) s) =
     map (\<lambda>i. if m_id i = ident
               then i\<lparr>m_progress := progressAfter tot (r + length v) vs (m_progress i)\<rparr> else i)
       (mediaItems (if positive tot
          then updateItem ident None (Some (percent tot (r + length v))) s else s))"
    by (simp only: feed.simps Cons.IH)
  also have "\<dots> = map (\<lambda>i. if m_id i = ident
               then i\<lparr>m_progress := progressAfter tot r (v # vs) (m_progress i)\<rparr> else i)
       (mediaItems s)"
    by (cases "positive tot") (simp_all add: progressAfter_Cons mergeFields_def o_def)
  finally show ?case .
qed

text \<open>The loop on a reader that ends: it returns, with the state \<open>feed\<close> describes.\<close>

lemma readLoop_run:
  "(\<forall>j<n. isChunk (rd (k + j))) \<Longrightarrow> \<not> isChunk (rd (k + n)) \<Longrightarrow>
   readLoop rd k tot ident r cs s =
     Some (if rd (k + n) = Done
           then Inr (cs @ map (\<lambda>j. chunkOf (rd (k + j))) [0..<n])
           else Inl ReadFailure,
           feed tot ident r (map (\<lambda>j. chunkOf (rd (k + j))) [0..<n]) s)"
proof (induction n arbitrary: k r cs s)
  case 0
  then show ?case
    by (cases "rd k") (simp_all add: readLoop.simps)
next
  case (Suc n)
  from Suc.prems(1) have "isChunk (rd (k + 0))" by blast
  then obtain v where v: "rd k = Chunk v" by (cases "rd k") auto
  have a: "\<forall>j<n. isChunk (rd (Suc k + j))"
  proof (intro allI impI)
    fix j assume "j < n"
    then show "isChunk (rd (Suc k + j))"
      using Suc.prems(1) [rule_format, of "Suc j"] by simp
  qed
  have b: "\<not> isChunk (rd (Suc k + n))" using Suc.prems(2) by simp
  have m: "map (\<lambda>j. chunkOf (rd (k + j))) [0..<Suc n] =
           v # map (\<lambda>j. chunkOf (rd (Suc k + j))) [0..<n]"
    by (simp add: map_upt_Suc v del: upt_Suc)
  have e: "rd (k + Suc n) = rd (Suc k + n)" by simp
  show ?case
    unfolding m e
    by (subst readLoop.simps) (simp add: v Suc.IH [OF a b])
qed

lemma endsAt_iff:
  "endsAt rd n \<longleftrightarrow> (\<forall>j<n. isChunk (rd j)) \<and> \<not> isChunk (rd n)"
  by (auto simp add: endsAt_def list_all_iff)

lemma readLoop_endsAt:
  "endsAt rd n \<Longrightarrow>
   readLoop rd 0 tot ident 0 [] s =
     Some (if rd n = Done then Inr (chunksUpTo rd n) else Inl ReadFailure,
           feed tot ident 0 (chunksUpTo rd n) s)"
  using readLoop_run [of n rd 0 tot ident 0 "[]" s]
  by (simp add: endsAt_iff chunksUpTo_def)

lemma not_chunk_cases: "\<not> isChunk x \<Longrightarrow> x = Done \<or> x = ReadError"
  by (cases x) auto

lemma downloadFile_succeeds:
  "succeeds w item n \<Longrightarrow>
   downloadFile w item s =
     Some (complete w item (bodyChunks w item n)
             (feed (declaredTotal w item) (m_id item) 0 (bodyChunks w item n)
                (updateItem (m_id item) (Some Downloading) (Some 0) s)))"
  by (auto simp: succeeds_def downloadFile_def downloadFile_try_def bodyChunks_def
      declaredTotal_def readLoop_endsAt split: fetchResult.splits option.splits)

lemma downloadFile_fails:
  "fails w item n \<Longrightarrow>
   downloadFile w item s =
     Some (updateItem (m_id item) (Some Error) None
             ((feed (declaredTotal w item) (m_id item) 0 (bodyChunks w item n)
                 (updateItem (m_id item) (Some Downloading) (Some 0) s))
              \<lparr>effects := effects (feed (declaredTotal w item) (m_id item) 0 (bodyChunks w item n)
                 (updateItem (m_id item) (Some Downloading) (Some 0) s)) @ [Logged (thrown w item)]\<rparr>))"
  by (auto simp: fails_def downloadFile_def downloadFile_try_def bodyChunks_def thrown_def
      declaredTotal_def readLoop_endsAt split: fetchResult.splits option.splits if_splits)

text \<open>A run that settles leaves the state \<open>afterRun\<close>.\<close>

lemma succeeds_not_fails: "succeeds w item n \<Longrightarrow> \<not> fails w item n"
  by (auto simp: succeeds_def fails_def split: fetchResult.splits option.splits)

lemma fails_not_succeeds: "fails w item n \<Longrightarrow> \<not> succeeds w item n"
  using succeeds_not_fails by blast

lemma downloadFile_succeeds_afterRun:
  assumes "succeeds w item n"
  shows "downloadFile w item s = Some (afterRun w item n s)"
proof -
  have "complete w item (bodyChunks w item n)
             (feed (declaredTotal w item) (m_id item) 0 (bodyChunks w item n)
                (updateItem (m_id item) (Some Downloading) (Some 0) s)) = afterRun w item n s"
    using assms
    by (simp add: complete_def afterRun_def feed_effects feed_items runEffects_def
        chunkPatches_def outcome_def finalProgress_def boundedAppend_def historyItemOf_def
        mergeFields_def o_def Let_def)
  then show ?thesis using downloadFile_succeeds [OF assms] by simp
qed

lemma downloadFile_fails_afterRun:
  assumes "fails w item n"
  shows "downloadFile w item s = Some (afterRun w item n s)"
proof -
  have ns: "\<not> succeeds w item n" using assms by (rule fails_not_succeeds)
  have "updateItem (m_id item) (Some Error) None
             ((feed (declaredTotal w item) (m_id item) 0 (bodyChunks w item n)
                 (updateItem (m_id item) (Some Downloading) (Some 0) s))
              \<lparr>effects := effects (feed (declaredTotal w item) (m_id item) 0 (bodyChunks w item n)
                 (updateItem (m_id item) (Some Downloading) (Some 0) s)) @ [Logged (thrown w item)]\<rparr>)
        = afterRun w item n s"
    using ns
    by (simp add: updateItem_def afterRun_def feed_effects feed_items runEffects_def
        chunkPatches_def outcome_def finalProgress_def mergeFields_def o_def)
  then show ?thesis using downloadFile_fails [OF assms] by simp
qed

lemma downloadFile_settles:
  "settles w item n \<Longrightarrow> downloadFile w item s = Some (afterRun w item n s)"
  unfolding settles_def
  using downloadFile_succeeds_afterRun downloadFile_fails_afterRun by blast

text \<open>A loop that returns has met a read that was not a chunk.\<close>

lemma readLoop_ends:
  assumes "readLoop rd k tot ident r cs s = Some y"
  shows "\<exists>n. (\<forall>j<n. isChunk (rd (k + j))) \<and> \<not> isChunk (rd (k + n))"
proof (rule readLoop.raw_induct
    [where P = "\<lambda>rd k tot ident r cs s y. \<exists>n. (\<forall>j<n. isChunk (rd (k + j))) \<and> \<not> isChunk (rd (k + n))",
      OF _ assms])
  fix f :: "reader \<Rightarrow> nat \<Rightarrow> int option \<Rightarrow> string \<Rightarrow> nat \<Rightarrow> bytes list \<Rightarrow> app \<Rightarrow> ((exn + bytes list) \<times> app) option"
  fix rd k tot ident r cs s y
  assume IH: "\<And>rd k tot ident r cs s y. f rd k tot ident r cs s = Some y \<Longrightarrow>
      \<exists>n. (\<forall>j<n. isChunk (rd (k + j))) \<and> \<not> isChunk (rd (k + n))"
  assume eq: "(case rd k of
      Chunk v \<Rightarrow> f rd (Suc k) tot ident (r + length v) (cs @ [v])
         (if positive tot then updateItem ident None (Some (percent tot (r + length v))) s else s)
      | Done \<Rightarrow> Some (Inr cs, s)
      | ReadError \<Rightarrow> Some (Inl ReadFailure, s)) = Some y"
  show "\<exists>n. (\<forall>j<n. isChunk (rd (k + j))) \<and> \<not> isChunk (rd (k + n))"
  proof (cases "rd k")
    case (Chunk v)
    with eq have "f rd (Suc k) tot ident (r + length v) (cs @ [v])
       (if positive tot then updateItem ident None (Some (percent tot (r + length v))) s else s) = Some y"
      by simp
    then have "\<exists>n. (\<forall>j<n. isChunk (rd (Suc k + j))) \<and> \<not> isChunk (rd (Suc k + n))"
      by (rule IH)
    then obtain n
      where n: "\<forall>j<n. isChunk (rd (Suc k + j))" "\<not> isChunk (rd (Suc k + n))"
      by (elim exE conjE)
    have "\<forall>j<Suc n. isChunk (rd (k + j))"
    proof (intro allI impI)
      fix j assume "j < Suc n"
      then show "isChunk (rd (k + j))"
        using n(1) Chunk by (cases j) auto
    qed
    moreover have "\<not> isChunk (rd (k + Suc n))" using n(2) by simp
    ultimately show ?thesis by blast
  next
    case Done
    then have "(\<forall>j<0. isChunk (rd (k + j))) \<and> \<not> isChunk (rd (k + 0))" by simp
    then show ?thesis by blast
  next
    case ReadError
    then have "(\<forall>j<0. isChunk (rd (k + j))) \<and> \<not> isChunk (rd (k + 0))" by simp
    then show ?thesis by blast
  qed
qed

text \<open>On a reader that never ends the loop, and with it \<open>downloadFile\<close>, does not return.\<close>

lemma readLoop_endless:
  assumes "\<forall>j. isChunk (rd j)"
  shows "readLoop rd k tot ident r cs s = None"
proof (cases "readLoop rd k tot ident r cs s")
  case None
  then show ?thesis .
next
  case (Some y)
  from readLoop_ends [OF Some] obtain n where "\<not> isChunk (rd (k + n))" by blast
  then show ?thesis using assms by blast
qed

lemma downloadFile_endless:
  assumes "fetch w (m_url item) = Resolved r" and "ok r" and "r_body r = Some rd"
    and "\<forall>j. isChunk (rd j)"
  shows "downloadFile w item s = None"
  using assms
  by (simp add: downloadFile_def downloadFile_try_def readLoop_endless)

section \<open>Facts about the effects of a run\<close>

lemma added_afterRun [simp]: "added s (afterRun w item n s) = runEffects w item n"
  by (simp add: added_def afterRun_def)

lemma marks_append [simp]: "marks (xs @ ys) = marks xs @ marks ys"
  by (simp add: marks_def)

lemma marks_Cons [simp]: "marks (x # xs) = markOf x @ marks xs"
  by (simp add: marks_def)

lemma marks_Nil [simp]: "marks [] = []"
  by (simp add: marks_def)

lemma marks_chunkPatches [simp]: "marks (chunkPatches tot ident cs) = []"
  by (auto simp add: chunkPatches_def marks_def)

lemma marks_runEffects:
  "marks (runEffects w item n) =
     [Became (m_id item) Downloading, Became (m_id item) (outcome w item n)]"
  by (simp add: runEffects_def outcome_def)

lemma progressPushed_runEffects:
  "progressPushed (runEffects w item n) =
     0 # (if positive (declaredTotal w item)
          then map (percent (declaredTotal w item)) (received 0 (bodyChunks w item n)) else [])
       @ (if succeeds w item n then [100] else [])"
  by (simp add: runEffects_def progressPushed_def chunkPatches_def o_def)

lemma chunkProgress_runEffects:
  "chunkProgress (runEffects w item n) =
     (if positive (declaredTotal w item)
      then map (percent (declaredTotal w item)) (received 0 (bodyChunks w item n)) else [])"
  by (simp add: runEffects_def chunkProgress_def chunkPatches_def o_def)

lemma received_Nil_iff [simp]: "received r vs = [] \<longleftrightarrow> vs = []"
  by (cases vs) auto

text \<open>The store after a run is the store before it with the run's effects replayed.\<close>

lemma replay_append: "replay (xs @ ys) items = replay ys (replay xs items)"
  by (simp add: replay_def)

lemma replay_Nil [simp]: "replay [] items = items"
  by (simp add: replay_def)

lemma replay_Cons [simp]: "replay (e # es) items = replay es (applyEffect e items)"
  by (simp add: replay_def)

lemma feed_replay:
  "mediaItems (feed tot ident r vs s) =
     replay (if positive tot
             then map (\<lambda>x. Patched ident None (Some (percent tot x))) (received r vs)
             else []) (mediaItems s)"
  by (induction vs arbitrary: r s) auto

lemma afterRun_replay:
  assumes "settles w item n"
  shows "mediaItems (afterRun w item n s) = replay (runEffects w item n) (mediaItems s)"
proof (cases "succeeds w item n")
  case True
  have "Some (afterRun w item n s) =
      Some (complete w item (bodyChunks w item n)
             (feed (declaredTotal w item) (m_id item) 0 (bodyChunks w item n)
                (updateItem (m_id item) (Some Downloading) (Some 0) s)))"
    using downloadFile_succeeds [OF True, of s] downloadFile_succeeds_afterRun [OF True, of s]
    by simp
  then show ?thesis
    using True
    by (simp add: complete_def Let_def feed_replay runEffects_def chunkPatches_def replay_append)
next
  case False
  then have f: "fails w item n" using assms by (simp add: settles_def)
  have "Some (afterRun w item n s) =
      Some (updateItem (m_id item) (Some Error) None
             ((feed (declaredTotal w item) (m_id item) 0 (bodyChunks w item n)
                 (updateItem (m_id item) (Some Downloading) (Some 0) s))
              \<lparr>effects := effects (feed (declaredTotal w item) (m_id item) 0 (bodyChunks w item n)
                 (updateItem (m_id item) (Some Downloading) (Some 0) s)) @ [Logged (thrown w item)]\<rparr>))"
    using downloadFile_fails [OF f, of s] downloadFile_fails_afterRun [OF f, of s]
    by simp
  then show ?thesis
    using False
    by (simp add: feed_replay runEffects_def chunkPatches_def replay_append)
qed


lemma parseInt_5: "parseInt ''5'' = Some 5"
  by code_simp

section \<open>The transfer engine: success and failure\<close>

text \<open>
  What a successful run does, which is all of claim C4 but the freshness of the id. A
  run that succeeds (the request resolves with a success status and the body, if any,
  ends with \<^verbatim>\<open>done\<close>) returns. The status updates it pushes for the
  item are \<open>Downloading\<close>, then \<open>Completed\<close>; in the store every item of that id is
  left \<open>Completed\<close> with progress 100 and the others as they were; and the history
  gets exactly one entry, at its head, whose filename, url and type are the item's,
  whose id is the decimal of \<^verbatim>\<open>Date.now()\<close> and whose date is \<^verbatim>\<open>new Date()\<close>. That
  id differs from the id of any entry made at another reading of the clock. For an
  item that was \<open>Pending\<close> in the store this is the passage from \<open>Pending\<close> through
  \<open>Downloading\<close> to \<open>Completed\<close>: the store after the run is the store before it with
  the recorded updates applied in order.
\<close>

theorem downloadFile_success:
  assumes "succeeds w item n"
  shows "\<exists>s'. downloadFile w item s = Some s'
     \<and> marks (added s s') = [Became (m_id item) Downloading, Became (m_id item) Completed]
     \<and> mediaItems s' =
         map (\<lambda>i. if m_id i = m_id item
                   then i\<lparr>m_status := Completed, m_progress := Some 100\<rparr> else i) (mediaItems s)
     \<and> downloadHistory s' = historyItemOf w item # take 49 (downloadHistory s)
     \<and> h_filename (historyItemOf w item) = m_filename item
     \<and> h_url (historyItemOf w item) = m_url item
     \<and> h_type (historyItemOf w item) = m_type item
     \<and> h_id (historyItemOf w item) = toString (dateNow w)
     \<and> h_downloadedAt (historyItemOf w item) = newDate w
     \<and> (\<forall>w' item'. dateNow w' \<noteq> dateNow w \<longrightarrow>
            h_id (historyItemOf w' item') \<noteq> h_id (historyItemOf w item))
     \<and> mediaItems s' = replay (added s s') (mediaItems s)"
proof -
  have run: "downloadFile w item s = Some (afterRun w item n s)"
    using assms by (rule downloadFile_succeeds_afterRun)
  have fr: "\<forall>w' item'. dateNow w' \<noteq> dateNow w \<longrightarrow>
            h_id (historyItemOf w' item') \<noteq> h_id (historyItemOf w item)"
    by (auto simp add: historyItemOf_def dest: toString_inj)
  have rp: "mediaItems (afterRun w item n s) =
      replay (added s (afterRun w item n s)) (mediaItems s)"
    unfolding added_afterRun using assms by (intro afterRun_replay) (simp add: settles_def)
  have m: "marks (added s (afterRun w item n s)) =
      [Became (m_id item) Downloading, Became (m_id item) Completed]"
    using assms by (simp add: marks_runEffects outcome_def)
  have i: "mediaItems (afterRun w item n s) =
      map (\<lambda>i. if m_id i = m_id item
                then i\<lparr>m_status := Completed, m_progress := Some 100\<rparr> else i) (mediaItems s)"
    using assms by (simp add: afterRun_def outcome_def finalProgress_def)
  have h: "downloadHistory (afterRun w item n s) = historyItemOf w item # take 49 (downloadHistory s)"
    using assms by (simp add: afterRun_def boundedAppend_def)
  have e: "h_filename (historyItemOf w item) = m_filename item
     \<and> h_url (historyItemOf w item) = m_url item
     \<and> h_type (historyItemOf w item) = m_type item
     \<and> h_id (historyItemOf w item) = toString (dateNow w)
     \<and> h_downloadedAt (historyItemOf w item) = newDate w"
    by (simp add: historyItemOf_def)
  show ?thesis
    using run m i h e fr rp by (intro exI [of _ "afterRun w item n s"]) simp
qed

theorem downloadFile_success_witness:
  "succeeds goodWorld sampleItem 2
   \<and> (\<exists>s'. downloadFile goodWorld sampleItem queued = Some s'
        \<and> map m_status (mediaItems s') = [Completed]
        \<and> map m_progress (mediaItems s') = [Some 100]
        \<and> map h_filename (downloadHistory s') = [''pic.JPG''])"
proof -
  have ok: "succeeds goodWorld sampleItem 2"
    by (auto simp add: succeeds_def goodWorld_def ok_def endsAt_iff goodReader_def)
  from downloadFile_success [OF ok, of queued] obtain s' where
    s': "downloadFile goodWorld sampleItem queued = Some s'"
    "mediaItems s' = map (\<lambda>i. if m_id i = m_id sampleItem
                   then i\<lparr>m_status := Completed, m_progress := Some 100\<rparr> else i) (mediaItems queued)"
    "downloadHistory s' = historyItemOf goodWorld sampleItem # take 49 (downloadHistory queued)"
    "h_filename (historyItemOf goodWorld sampleItem) = m_filename sampleItem"
    by blast
  have "map m_status (mediaItems s') = [Completed]" "map m_progress (mediaItems s') = [Some 100]"
    "map h_filename (downloadHistory s') = [''pic.JPG'']"
    using s' by (simp_all add: queued_def sampleItem_def)
  with ok s'(1) show ?thesis by simp
qed


lemma toString_2000: "toString 2000 = ''2000''"
  by (simp add: toString.simps digitChar_def)

text \<open>
  Claim C4. The claim has the history entry carry a fresh id. The code takes the id
  from the clock, \<^verbatim>\<open>Date.now().toString()\<close>, and nothing else: two successful runs
  that read the same value of the clock, one after the other, leave two entries with
  the same id at the head of the history, so the ids of the history are not
  distinct.
\<close>

theorem history_ids_repeat:
  assumes "succeeds w item n" and "succeeds w' item' n'" and "dateNow w' = dateNow w"
  shows "\<exists>s1 s2. downloadFile w item s = Some s1 \<and> downloadFile w' item' s1 = Some s2
     \<and> take 2 (map h_id (downloadHistory s2)) = [toString (dateNow w), toString (dateNow w)]
     \<and> \<not> distinct (map h_id (downloadHistory s2))"
proof -
  let ?s1 = "afterRun w item n s"
  let ?s2 = "afterRun w' item' n' ?s1"
  have r1: "downloadFile w item s = Some ?s1"
    using assms(1) by (rule downloadFile_succeeds_afterRun)
  have r2: "downloadFile w' item' ?s1 = Some ?s2"
    using assms(2) by (rule downloadFile_succeeds_afterRun)
  have h: "map h_id (downloadHistory ?s2) =
      toString (dateNow w) # toString (dateNow w) # map h_id (take 48 (downloadHistory s))"
    using assms by (simp add: afterRun_def boundedAppend_def historyItemOf_def)
  have t: "take 2 (map h_id (downloadHistory ?s2)) = [toString (dateNow w), toString (dateNow w)]"
    unfolding h by simp
  have d: "\<not> distinct (map h_id (downloadHistory ?s2))"
    unfolding h by simp
  show ?thesis
    using r1 r2 t d by (intro exI [of _ ?s1] exI [of _ ?s2]) simp
qed

theorem history_ids_repeat_witness:
  "succeeds goodWorld sampleItem 2 \<and> dateNow goodWorld = 2000
   \<and> (\<exists>s1 s2. downloadFile goodWorld sampleItem queued = Some s1
        \<and> downloadFile goodWorld sampleItem s1 = Some s2
        \<and> take 2 (map h_id (downloadHistory s2)) = [''2000'', ''2000''])"
proof -
  have ok: "succeeds goodWorld sampleItem 2"
    by (auto simp add: succeeds_def goodWorld_def ok_def endsAt_iff goodReader_def)
  have c: "dateNow goodWorld = 2000" by (simp add: goodWorld_def)
  from history_ids_repeat [OF ok ok refl, of queued] obtain s1 s2 where
    "downloadFile goodWorld sampleItem queued = Some s1"
    "downloadFile goodWorld sampleItem s1 = Some s2"
    "take 2 (map h_id (downloadHistory s2)) =
       [toString (dateNow goodWorld), toString (dateNow goodWorld)]"
    by blast
  then show ?thesis using ok c by (auto simp add: toString_2000)
qed

lemma last_chunk_progress_failed:
  "\<not> succeeds w item n \<Longrightarrow>
   finalProgress w item n = Some (last (0 # chunkProgress (runEffects w item n)))"
  by (simp add: finalProgress_def chunkProgress_runEffects progressAfter_def last_map)

text \<open>
  Claim C3. A run that fails (the request is rejected, the status is not a success, or
  a read fails) returns all the same: nothing is thrown to the caller. What it does
  is, in order: the update to \<open>Downloading\<close> with progress 0, the chunk updates, the
  log entry, and the update to \<open>Error\<close>, which carries no progress. So the status
  updates are \<open>Downloading\<close>, then \<open>Error\<close>, and every item of that id is left in
  \<open>Error\<close> with the progress it had when the failure came: the value of the last
  chunk update, or the initial 0 when there was none. The history is the one the run
  started with, and the store after the run is the store before it with the recorded
  updates applied in order.
\<close>

theorem downloadFile_failure:
  assumes "fails w item n"
  shows "\<exists>s'. downloadFile w item s = Some s'
     \<and> marks (added s s') = [Became (m_id item) Downloading, Became (m_id item) Error]
     \<and> added s s' =
         Patched (m_id item) (Some Downloading) (Some 0) #
         chunkPatches (declaredTotal w item) (m_id item) (bodyChunks w item n) @
         [Logged (thrown w item), Patched (m_id item) (Some Error) None]
     \<and> mediaItems s' =
         map (\<lambda>i. if m_id i = m_id item
                   then i\<lparr>m_status := Error,
                          m_progress := Some (last (0 # chunkProgress (added s s')))\<rparr>
                   else i) (mediaItems s)
     \<and> downloadHistory s' = downloadHistory s
     \<and> mediaItems s' = replay (added s s') (mediaItems s)"
proof -
  have ns: "\<not> succeeds w item n" using assms by (rule fails_not_succeeds)
  have rp: "mediaItems (afterRun w item n s) =
      replay (added s (afterRun w item n s)) (mediaItems s)"
    unfolding added_afterRun using assms by (intro afterRun_replay) (simp add: settles_def)
  have run: "downloadFile w item s = Some (afterRun w item n s)"
    using assms by (rule downloadFile_fails_afterRun)
  have m: "marks (added s (afterRun w item n s)) =
      [Became (m_id item) Downloading, Became (m_id item) Error]"
    using ns by (simp add: marks_runEffects outcome_def)
  have e: "added s (afterRun w item n s) =
         Patched (m_id item) (Some Downloading) (Some 0) #
         chunkPatches (declaredTotal w item) (m_id item) (bodyChunks w item n) @
         [Logged (thrown w item), Patched (m_id item) (Some Error) None]"
    using ns by (simp add: runEffects_def)
  have i: "mediaItems (afterRun w item n s) =
      map (\<lambda>i. if m_id i = m_id item
                then i\<lparr>m_status := Error,
                       m_progress := Some (last (0 # chunkProgress (added s (afterRun w item n s))))\<rparr>
                else i) (mediaItems s)"
    unfolding added_afterRun
    using ns last_chunk_progress_failed [OF ns] by (simp add: afterRun_def outcome_def)
  have h: "downloadHistory (afterRun w item n s) = downloadHistory s"
    using ns by (simp add: afterRun_def)
  show ?thesis
  proof (intro exI [of _ "afterRun w item n s"] conjI)
    show "downloadFile w item s = Some (afterRun w item n s)" by (rule run)
  qed (rule m e i h rp)+
qed

theorem downloadFile_failure_witness:
  "fails brokenWorld sampleItem 1
   \<and> (\<exists>s'. downloadFile brokenWorld sampleItem queued = Some s'
        \<and> map m_status (mediaItems s') = [Error]
        \<and> map m_progress (mediaItems s') = [Some 60]
        \<and> added queued s' =
            [Patched ''1000'' (Some Downloading) (Some 0), Patched ''1000'' None (Some 60),
             Logged ReadFailure, Patched ''1000'' (Some Error) None]
        \<and> downloadHistory s' = [])"
proof -
  have bad: "fails brokenWorld sampleItem 1"
    by (auto simp add: fails_def brokenWorld_def ok_def endsAt_iff brokenReader_def)
  from downloadFile_failure [OF bad, of queued] obtain s' where
    s': "downloadFile brokenWorld sampleItem queued = Some s'"
    "added queued s' =
         Patched (m_id sampleItem) (Some Downloading) (Some 0) #
         chunkPatches (declaredTotal brokenWorld sampleItem) (m_id sampleItem)
           (bodyChunks brokenWorld sampleItem 1) @
         [Logged (thrown brokenWorld sampleItem), Patched (m_id sampleItem) (Some Error) None]"
    "mediaItems s' = map (\<lambda>i. if m_id i = m_id sampleItem
                   then i\<lparr>m_status := Error,
                          m_progress := Some (last (0 # chunkProgress (added queued s')))\<rparr>
                   else i) (mediaItems queued)"
    "downloadHistory s' = downloadHistory queued"
    by blast
  have b: "bodyChunks brokenWorld sampleItem 1 = [[1, 2, 3]]"
    by (simp add: bodyChunks_def brokenWorld_def ok_def chunksUpTo_def brokenReader_def)
  have d: "declaredTotal brokenWorld sampleItem = Some 5"
    by (simp add: declaredTotal_def brokenWorld_def totalOf_def parseInt_5)
  have x: "thrown brokenWorld sampleItem = ReadFailure"
    by (simp add: thrown_def brokenWorld_def ok_def)
  have a: "added queued s' =
            [Patched ''1000'' (Some Downloading) (Some 0), Patched ''1000'' None (Some 60),
             Logged ReadFailure, Patched ''1000'' (Some Error) None]"
    unfolding s'(2) b d x
    by (simp add: chunkPatches_def positive_def percent_def sampleItem_def)
  have c: "chunkProgress (added queued s') = [60]"
    unfolding a by (simp add: chunkProgress_def)
  have "map m_status (mediaItems s') = [Error]" "map m_progress (mediaItems s') = [Some 60]"
    "downloadHistory s' = []"
    using s'(3,4) c by (simp_all add: queued_def sampleItem_def)
  with bad s'(1) a show ?thesis by simp
qed

section \<open>Progress while downloading\<close>

lemma received_bounds:
  "x \<in> set (received r vs) \<Longrightarrow> r \<le> x \<and> x \<le> r + sum_list (map length vs)"
  by (induction vs arbitrary: r) fastforce+

lemma sorted_received: "sorted (received r vs)"
  by (induction vs arbitrary: r) (auto dest: received_bounds)

lemma percent_mono:
  "positive tot \<Longrightarrow> x \<le> y \<Longrightarrow> percent tot x \<le> percent tot y"
  by (auto simp add: positive_def percent_def divide_right_mono split: option.splits)

lemma percent_nonneg: "positive tot \<Longrightarrow> 0 \<le> percent tot x"
  by (auto simp add: positive_def percent_def split: option.splits)

lemma percent_le_100:
  "tot = Some t \<Longrightarrow> 0 < t \<Longrightarrow> int x \<le> t \<Longrightarrow> percent tot x \<le> 100"
proof -
  assume a: "tot = Some t" "0 < t" "int x \<le> t"
  have "(of_nat x :: rat) \<le> of_int t" using a(3) by (metis of_int_le_iff of_int_of_nat_eq)
  then have "(of_nat x :: rat) / of_int t \<le> 1" using a(2) by (simp add: divide_le_eq_1)
  then have "(of_nat x :: rat) / of_int t * 100 \<le> 1 * 100"
    by (rule mult_right_mono) simp
  then show ?thesis using a(1) by (simp add: percent_def)
qed

lemma sorted_map_percent:
  "positive tot \<Longrightarrow> sorted xs \<Longrightarrow> sorted (map (percent tot) xs)"
  by (induction xs) (auto simp add: percent_mono)

lemma not_positive_header:
  "h = None \<or> h = Some [] \<or> (\<exists>cl. h = Some cl \<and> parseInt cl = None) \<Longrightarrow> \<not> positive (totalOf h)"
  by (auto simp add: totalOf_def positive_def split: if_splits)


lemma chunkProgress_sorted: "sorted (chunkProgress (runEffects w item n))"
  by (simp add: chunkProgress_runEffects sorted_map_percent sorted_received)

lemma chunkProgress_nonneg: "list_all (\<lambda>p. 0 \<le> p) (chunkProgress (runEffects w item n))"
  by (auto simp add: chunkProgress_runEffects list_all_iff percent_nonneg)

lemma chunkProgress_le_100:
  "declaredTotal w item = Some t \<Longrightarrow> int (sum_list (map length (bodyChunks w item n))) \<le> t \<Longrightarrow>
   list_all (\<lambda>p. p \<le> 100) (chunkProgress (runEffects w item n))"
proof -
  assume a: "declaredTotal w item = Some t"
    and b: "int (sum_list (map length (bodyChunks w item n))) \<le> t"
  show ?thesis
  proof (cases "positive (declaredTotal w item)")
    case False
    then show ?thesis by (simp add: chunkProgress_runEffects)
  next
    case True
    then have t: "0 < t" using a by (simp add: positive_def)
    have "\<And>x. x \<in> set (received 0 (bodyChunks w item n)) \<Longrightarrow> percent (Some t) x \<le> 100"
    proof -
      fix x assume "x \<in> set (received 0 (bodyChunks w item n))"
      then have "x \<le> sum_list (map length (bodyChunks w item n))"
        using received_bounds [of x 0 "bodyChunks w item n"] by simp
      then have "int x \<le> t" using b by linarith
      then show "percent (Some t) x \<le> 100" using t by (simp add: percent_le_100)
    qed
    then show ?thesis using True a by (simp add: chunkProgress_runEffects list_all_iff)
  qed
qed

lemma parseInt_10: "parseInt ''10'' = Some 10"
  by code_simp


text \<open>
  The part of claim C10 that the code meets. For a run that settles, the values of
  progress pushed chunk by chunk are the percentages of the bytes received so far
  against the total the length header declares; they are pushed only when that header
  parses, by \<open>parseInt\<close>, to a positive integer. They never decrease and are never negative.
  They stay at or below 100 as long as the body holds no more bytes than the header
  declares. When the total is not positive (the header is absent, empty, starts with
  no integer, or gives zero or less) no chunk update is pushed: progress is set to 0
  with \<open>Downloading\<close> and next, only on success, to 100 with \<open>Completed\<close>.
\<close>

theorem chunk_progress:
  assumes "settles w item n"
  shows "\<exists>s'. downloadFile w item s = Some s'
     \<and> chunkProgress (added s s') =
         (if positive (declaredTotal w item)
          then map (percent (declaredTotal w item)) (received 0 (bodyChunks w item n)) else [])
     \<and> sorted (chunkProgress (added s s'))
     \<and> list_all (\<lambda>p. 0 \<le> p) (chunkProgress (added s s'))
     \<and> (\<forall>t. declaredTotal w item = Some t
              \<and> int (sum_list (map length (bodyChunks w item n))) \<le> t
            \<longrightarrow> list_all (\<lambda>p. p \<le> 100) (chunkProgress (added s s')))
     \<and> (\<not> positive (declaredTotal w item)
          \<longrightarrow> progressPushed (added s s') = (if succeeds w item n then [0, 100] else [0]))
     \<and> (\<forall>r. fetch w (m_url item) = Resolved r
              \<and> (r_contentLength r = None \<or> r_contentLength r = Some []
                   \<or> (\<exists>cl. r_contentLength r = Some cl \<and> parseInt cl = None))
            \<longrightarrow> chunkProgress (added s s') = [])"
proof -
  have run: "downloadFile w item s = Some (afterRun w item n s)"
    using assms by (rule downloadFile_settles)
  have h: "\<forall>r. fetch w (m_url item) = Resolved r
              \<and> (r_contentLength r = None \<or> r_contentLength r = Some []
                   \<or> (\<exists>cl. r_contentLength r = Some cl \<and> parseInt cl = None))
            \<longrightarrow> chunkProgress (runEffects w item n) = []"
  proof (intro allI impI)
    fix r
    assume a: "fetch w (m_url item) = Resolved r
              \<and> (r_contentLength r = None \<or> r_contentLength r = Some []
                   \<or> (\<exists>cl. r_contentLength r = Some cl \<and> parseInt cl = None))"
    then have "\<not> positive (totalOf (r_contentLength r))"
      using not_positive_header [of "r_contentLength r"] by blast
    then show "chunkProgress (runEffects w item n) = []"
      using a by (simp add: chunkProgress_runEffects declaredTotal_def)
  qed
  have l: "\<forall>t. declaredTotal w item = Some t
              \<and> int (sum_list (map length (bodyChunks w item n))) \<le> t
            \<longrightarrow> list_all (\<lambda>p. p \<le> 100) (chunkProgress (runEffects w item n))"
    using chunkProgress_le_100 by blast
  have p: "\<not> positive (declaredTotal w item)
          \<longrightarrow> progressPushed (runEffects w item n) = (if succeeds w item n then [0, 100] else [0])"
    by (simp add: progressPushed_runEffects)
  show ?thesis
  proof (intro exI [of _ "afterRun w item n s"] conjI)
    show "downloadFile w item s = Some (afterRun w item n s)" by (rule run)
    show "chunkProgress (added s (afterRun w item n s)) =
         (if positive (declaredTotal w item)
          then map (percent (declaredTotal w item)) (received 0 (bodyChunks w item n)) else [])"
      unfolding added_afterRun by (rule chunkProgress_runEffects)
    show "sorted (chunkProgress (added s (afterRun w item n s)))"
      unfolding added_afterRun by (rule chunkProgress_sorted)
    show "list_all (\<lambda>p. 0 \<le> p) (chunkProgress (added s (afterRun w item n s)))"
      unfolding added_afterRun by (rule chunkProgress_nonneg)
    show "\<forall>t. declaredTotal w item = Some t
              \<and> int (sum_list (map length (bodyChunks w item n))) \<le> t
            \<longrightarrow> list_all (\<lambda>p. p \<le> 100) (chunkProgress (added s (afterRun w item n s)))"
      unfolding added_afterRun by (rule l)
    show "\<not> positive (declaredTotal w item)
          \<longrightarrow> progressPushed (added s (afterRun w item n s)) =
              (if succeeds w item n then [0, 100] else [0])"
      unfolding added_afterRun by (rule p)
    show "\<forall>r. fetch w (m_url item) = Resolved r
              \<and> (r_contentLength r = None \<or> r_contentLength r = Some []
                   \<or> (\<exists>cl. r_contentLength r = Some cl \<and> parseInt cl = None))
            \<longrightarrow> chunkProgress (added s (afterRun w item n s)) = []"
      unfolding added_afterRun by (rule h)
  qed
qed

theorem chunk_progress_witness:
  "settles goodWorld sampleItem 2
   \<and> (\<exists>s'. downloadFile goodWorld sampleItem queued = Some s'
        \<and> chunkProgress (added queued s') = [60, 100])"
proof -
  have ok: "settles goodWorld sampleItem 2"
    by (auto simp add: settles_def succeeds_def goodWorld_def ok_def endsAt_iff goodReader_def)
  from chunk_progress [OF ok, of queued] obtain s' where
    s': "downloadFile goodWorld sampleItem queued = Some s'"
    "chunkProgress (added queued s') =
         (if positive (declaredTotal goodWorld sampleItem)
          then map (percent (declaredTotal goodWorld sampleItem))
                 (received 0 (bodyChunks goodWorld sampleItem 2)) else [])"
    by blast
  have b: "bodyChunks goodWorld sampleItem 2 = [[1, 2, 3], [4, 5]]"
    by (simp add: bodyChunks_def goodWorld_def ok_def chunksUpTo_def goodReader_def
        upt_conv_Cons)
  have "chunkProgress (added queued s') = [60, 100]"
    unfolding s'(2) b
    by (simp add: declaredTotal_def goodWorld_def totalOf_def parseInt_5 positive_def percent_def)
  with ok s'(1) show ?thesis by simp
qed


text \<open>
  Claim C10. The claim has progress stay within 0 and 100 while an item is
  downloading. The code computes the percentage against the length the header
  declares, and nothing holds the bytes a body delivers below that length: with a
  header of 10 and a chunk of 20 bytes, the update pushed while the item is
  downloading carries a progress of 200.
\<close>

theorem progress_above_100:
  "map_option effects (downloadFile overrunWorld sampleItem queued) =
     Some [Patched ''1000'' (Some Downloading) (Some 0),
           Patched ''1000'' None (Some 200),
           Saved ''pic.JPG'' (replicate 20 0),
           Patched ''1000'' (Some Completed) (Some 100)]"
proof -
  have ok: "succeeds overrunWorld sampleItem 1"
    by (auto simp add: succeeds_def overrunWorld_def ok_def endsAt_iff overrunReader_def)
  have b: "bodyChunks overrunWorld sampleItem 1 = [replicate 20 0]"
    by (simp add: bodyChunks_def overrunWorld_def ok_def chunksUpTo_def overrunReader_def)
  have d: "declaredTotal overrunWorld sampleItem = Some 10"
    by (simp add: declaredTotal_def overrunWorld_def totalOf_def parseInt_10)
  have i: "m_id sampleItem = ''1000''" "m_filename sampleItem = ''pic.JPG''" "effects queued = []"
    by (simp_all add: sampleItem_def queued_def)
  have "effects (afterRun overrunWorld sampleItem 1 queued) =
     [Patched ''1000'' (Some Downloading) (Some 0),
           Patched ''1000'' None (Some 200),
           Saved ''pic.JPG'' (replicate 20 0),
           Patched ''1000'' (Some Completed) (Some 100)]"
    using ok
    by (simp add: afterRun_def runEffects_def b [unfolded One_nat_def] d i chunkPatches_def
        positive_def percent_def)
  then show ?thesis
    using downloadFile_succeeds_afterRun [OF ok, of queued] by simp
qed

section \<open>The history log\<close>

text \<open>A run that returns has settled: its reader ended.\<close>

lemma downloadFile_returns_settles:
  assumes "downloadFile w item s = Some s'"
  shows "\<exists>n. settles w item n"
proof (cases "fetch w (m_url item)")
  case Rejected
  then have "fails w item 0" by (simp add: fails_def)
  then show ?thesis unfolding settles_def by blast
next
  case (Resolved r)
  show ?thesis
  proof (cases "ok r")
    case False
    then have "fails w item 0" using Resolved by (simp add: fails_def)
    then show ?thesis unfolding settles_def by blast
  next
    case True
    show ?thesis
    proof (cases "r_body r")
      case None
      then have "succeeds w item 0" using Resolved True by (simp add: succeeds_def)
      then show ?thesis unfolding settles_def by blast
    next
      case (Some rd)
      let ?s1 = "updateItem (m_id item) (Some Downloading) (Some 0) s"
      have "readLoop rd 0 (totalOf (r_contentLength r)) (m_id item) 0 [] ?s1 \<noteq> None"
        using assms Resolved True Some
        by (auto simp add: downloadFile_def downloadFile_try_def split: option.splits)
      then obtain y where
        "readLoop rd 0 (totalOf (r_contentLength r)) (m_id item) 0 [] ?s1 = Some y"
        by blast
      from readLoop_ends [OF this] obtain n where
        "(\<forall>j<n. isChunk (rd (0 + j))) \<and> \<not> isChunk (rd (0 + n))"
        by (elim exE)
      then have e: "endsAt rd n" by (simp add: endsAt_iff)
      then have "rd n = Done \<or> rd n = ReadError"
        by (simp add: endsAt_iff not_chunk_cases)
      then have "succeeds w item n \<or> fails w item n"
        using e Resolved True Some by (auto simp add: succeeds_def fails_def)
      then show ?thesis unfolding settles_def by blast
    qed
  qed
qed

lemma downloadFile_Some_afterRun:
  assumes "downloadFile w item s = Some s'"
  shows "\<exists>n. settles w item n \<and> s' = afterRun w item n s"
proof -
  from downloadFile_returns_settles [OF assms] obtain n where n: "settles w item n"
    by (elim exE)
  then have "downloadFile w item s = Some (afterRun w item n s)"
    by (rule downloadFile_settles)
  with assms n show ?thesis by auto
qed

lemma downloadFile_history:
  assumes "downloadFile w item s = Some s'"
  shows "downloadHistory s' = downloadHistory s
         \<or> downloadHistory s' = boundedAppend (historyItemOf w item) (downloadHistory s)"
proof -
  from downloadFile_Some_afterRun [OF assms] obtain n where "s' = afterRun w item n s"
    by blast
  then show ?thesis by (simp add: afterRun_def)
qed

lemma downloadEach_history:
  "downloadEach ws k items s = Some s' \<Longrightarrow>
   \<exists>es. downloadHistory s' = foldr boundedAppend es (downloadHistory s)"
proof (induction items arbitrary: k s)
  case Nil
  then have "downloadHistory s' = foldr boundedAppend [] (downloadHistory s)" by simp
  then show ?case by (rule exI)
next
  case (Cons item rest)
  from Cons.prems obtain s1 where
    s1: "downloadFile (ws k) item s = Some s1"
    and r: "downloadEach ws (Suc k) rest (s1\<lparr>effects := effects s1 @ [Delayed 500]\<rparr>) = Some s'"
    by (auto split: option.splits)
  from Cons.IH [OF r] obtain es where
    es: "downloadHistory s' = foldr boundedAppend es (downloadHistory s1)"
    by auto
  from downloadFile_history [OF s1] show ?case
  proof
    assume "downloadHistory s1 = downloadHistory s"
    with es show ?thesis by auto
  next
    assume "downloadHistory s1 = boundedAppend (historyItemOf (ws k) item) (downloadHistory s)"
    with es have "downloadHistory s' =
        foldr boundedAppend (es @ [historyItemOf (ws k) item]) (downloadHistory s)"
      by simp
    then show ?thesis by (rule exI)
  qed
qed

lemma length_foldr_boundedAppend:
  "length h \<le> 50 \<Longrightarrow> length (foldr boundedAppend es h) \<le> 50"
  by (induction es) (auto simp add: boundedAppend_def)

lemma addMediaItem_history:
  "addMediaItem parse now url s = Inr s' \<Longrightarrow> downloadHistory s' = downloadHistory s"
  by (auto simp add: addMediaItem_def Let_def split: if_splits sum.splits)

lemma history_same:
  "h' = h \<Longrightarrow> \<exists>es. h' = foldr boundedAppend es h"
  by (rule exI [of _ "[]"]) simp

lemma history_one:
  "h' = boundedAppend e h \<Longrightarrow> \<exists>es. h' = foldr boundedAppend es h"
  by (rule exI [of _ "[e]"]) simp

lemma exec_history:
  assumes "exec parse c s = Some s'"
  shows "if c = ClearHistory then downloadHistory s' = []
         else \<exists>es. downloadHistory s' = foldr boundedAppend es (downloadHistory s)"
proof (cases c)
  case (AddMediaItem now url)
  then have "downloadHistory s' = downloadHistory s"
    using assms by (auto simp add: addMediaItem_history split: sum.splits)
  then have "\<exists>es. downloadHistory s' = foldr boundedAppend es (downloadHistory s)"
    by (rule history_same)
  then show ?thesis using AddMediaItem by simp
next
  case (RemoveMediaItem ident)
  then have "downloadHistory s' = downloadHistory s"
    using assms by (auto simp add: removeMediaItem_def)
  then have "\<exists>es. downloadHistory s' = foldr boundedAppend es (downloadHistory s)"
    by (rule history_same)
  then show ?thesis using RemoveMediaItem by simp
next
  case (DownloadFile w item)
  then have "downloadFile w item s = Some s'" using assms by simp
  from downloadFile_history [OF this]
  have "\<exists>es. downloadHistory s' = foldr boundedAppend es (downloadHistory s)"
    using history_same history_one by blast
  then show ?thesis using DownloadFile by simp
next
  case (DownloadAll ws)
  then have "downloadEach ws 0 (pendingItems s) s = Some s'"
    using assms by (simp add: downloadAll_def)
  from downloadEach_history [OF this] show ?thesis using DownloadAll by simp
next
  case ClearCompleted
  then have "downloadHistory s' = downloadHistory s"
    using assms by (auto simp add: clearCompleted_def)
  then have "\<exists>es. downloadHistory s' = foldr boundedAppend es (downloadHistory s)"
    by (rule history_same)
  then show ?thesis using ClearCompleted by simp
next
  case ClearHistory
  then show ?thesis using assms by (auto simp add: clearHistory_def)
qed

lemma reachable_history_bounded:
  "reachable parse s \<Longrightarrow> length (downloadHistory s) \<le> 50"
proof (induction rule: reachable.induct)
  case start
  show ?case by (simp add: initial_def)
next
  case (step s c s')
  from exec_history [OF step.hyps(2)] step.IH show ?case
    by (auto simp add: length_foldr_boundedAppend split: if_splits)
qed

lemma downloadSeq_append:
  "downloadSeq (xs @ ys) s =
     (case downloadSeq xs s of None \<Rightarrow> None | Some s' \<Rightarrow> downloadSeq ys s')"
  by (induction xs arbitrary: s) (auto split: option.splits)

lemma downloadSeq_succeeds:
  "list_all (\<lambda>(w, item, n). succeeds w item n) runs \<Longrightarrow>
   \<exists>s'. downloadSeq (map (\<lambda>(w, item, n). (w, item)) runs) s = Some s'
     \<and> downloadHistory s' =
         (if runs = [] then downloadHistory s
          else take 50 (rev (map (\<lambda>(w, item, n). historyItemOf w item) runs) @ downloadHistory s))"
proof (induction runs rule: rev_induct)
  case Nil
  show ?case by simp
next
  case (snoc r runs)
  obtain w item n where r: "r = (w, item, n)" by (cases r) auto
  from snoc.prems have all: "list_all (\<lambda>(w, item, n). succeeds w item n) runs"
    and ok: "succeeds w item n"
    by (simp_all add: r)
  from snoc.IH [OF all] obtain s1 where
    s1: "downloadSeq (map (\<lambda>(w, item, n). (w, item)) runs) s = Some s1"
    and h1: "downloadHistory s1 =
         (if runs = [] then downloadHistory s
          else take 50 (rev (map (\<lambda>(w, item, n). historyItemOf w item) runs) @ downloadHistory s))"
    by blast
  have run: "downloadFile w item s1 = Some (afterRun w item n s1)"
    using ok by (rule downloadFile_succeeds_afterRun)
  have seq: "downloadSeq (map (\<lambda>(w, item, n). (w, item)) (runs @ [r])) s =
      Some (afterRun w item n s1)"
    by (simp add: downloadSeq_append s1 r run)
  have "downloadHistory (afterRun w item n s1) =
      historyItemOf w item # take 49 (downloadHistory s1)"
    using ok by (simp add: afterRun_def boundedAppend_def)
  also have "\<dots> = take 50 (rev (map (\<lambda>(w, item, n). historyItemOf w item) (runs @ [r]))
      @ downloadHistory s)"
    by (auto simp add: h1 r min_def)
  finally show ?case using seq by simp
qed

lemma take_rev_drop:
  "n \<le> length xs \<Longrightarrow> take n (rev xs @ ys) = rev (drop (length xs - n) xs)"
  by (simp add: take_rev)


lemma succeeds_clock:
  "succeeds (goodWorld\<lparr>dateNow := k\<rparr>) sampleItem 2"
  by (auto simp add: succeeds_def goodWorld_def ok_def endsAt_iff goodReader_def)


text \<open>
  Claim C2. Successful downloads run one after the other all return, and each puts its
  entry at the head of the history and keeps the first 49 of those it found: after
  them the history is the first 50 of the new entries, most recent first, followed by
  the old ones. It holds at most 50 entries as soon as one download has completed;
  after 50 downloads or more (60, say) it is exactly the 50 most recent entries, most
  recent first. And in every state the commands of the view can reach from the empty
  one, the history holds at most 50 entries.
\<close>

theorem history_capacity:
  assumes "list_all (\<lambda>(w, item, n). succeeds w item n) runs"
  shows "\<exists>s'. downloadSeq (map (\<lambda>(w, item, n). (w, item)) runs) s = Some s'
     \<and> downloadHistory s' =
         (if runs = [] then downloadHistory s
          else take 50 (rev (map (\<lambda>(w, item, n). historyItemOf w item) runs) @ downloadHistory s))
     \<and> (runs \<noteq> [] \<longrightarrow> length (downloadHistory s') \<le> 50)
     \<and> (50 \<le> length runs \<longrightarrow>
          downloadHistory s' =
            rev (map (\<lambda>(w, item, n). historyItemOf w item) (drop (length runs - 50) runs)))
     \<and> (reachable parse s \<longrightarrow>
          length (downloadHistory s) \<le> 50 \<and> length (downloadHistory s') \<le> 50)"
proof -
  let ?e = "\<lambda>(w, item, n). historyItemOf w item"
  from downloadSeq_succeeds [OF assms, of s] obtain s' where
    seq: "downloadSeq (map (\<lambda>(w, item, n). (w, item)) runs) s = Some s'"
    and h: "downloadHistory s' =
         (if runs = [] then downloadHistory s
          else take 50 (rev (map ?e runs) @ downloadHistory s))"
    by blast
  have a: "runs \<noteq> [] \<longrightarrow> length (downloadHistory s') \<le> 50"
    by (simp add: h del: take_append)
  have b: "50 \<le> length runs \<longrightarrow> downloadHistory s' = rev (map ?e (drop (length runs - 50) runs))"
  proof
    assume l: "50 \<le> length runs"
    then have "runs \<noteq> []" by auto
    then have "downloadHistory s' = take 50 (rev (map ?e runs) @ downloadHistory s)"
      by (simp add: h)
    also have "\<dots> = rev (drop (length (map ?e runs) - 50) (map ?e runs))"
      using l by (intro take_rev_drop) simp
    finally show "downloadHistory s' = rev (map ?e (drop (length runs - 50) runs))"
      by (simp add: drop_map)
  qed
  have c: "reachable parse s \<longrightarrow>
          length (downloadHistory s) \<le> 50 \<and> length (downloadHistory s') \<le> 50"
  proof
    assume "reachable parse s"
    then have "length (downloadHistory s) \<le> 50" by (rule reachable_history_bounded)
    then show "length (downloadHistory s) \<le> 50 \<and> length (downloadHistory s') \<le> 50"
      by (simp add: h del: take_append)
  qed
  show ?thesis using seq h a b c by simp
qed

theorem history_capacity_witness:
  "list_all (\<lambda>(w, item, n). succeeds w item n)
     (map (\<lambda>k. (goodWorld\<lparr>dateNow := k\<rparr>, sampleItem, 2)) [0..<60])
   \<and> (\<exists>s'. downloadSeq (map (\<lambda>k. (goodWorld\<lparr>dateNow := k\<rparr>, sampleItem)) [0..<60]) queued = Some s'
        \<and> length (downloadHistory s') = 50
        \<and> map h_id (downloadHistory s') = rev (map toString [10..<60]))"
proof -
  let ?runs = "map (\<lambda>k. (goodWorld\<lparr>dateNow := k\<rparr>, sampleItem, 2 :: nat)) [0..<60]"
  have all: "list_all (\<lambda>(w, item, n). succeeds w item n) ?runs"
    by (simp add: list_all_iff succeeds_clock)
  from history_capacity [OF all, of queued] obtain s' where
    seq: "downloadSeq (map (\<lambda>(w, item, n). (w, item)) ?runs) queued = Some s'"
    and h: "50 \<le> length ?runs \<longrightarrow>
          downloadHistory s' =
            rev (map (\<lambda>(w, item, n). historyItemOf w item) (drop (length ?runs - 50) ?runs))"
    by blast
  have seq': "downloadSeq (map (\<lambda>k. (goodWorld\<lparr>dateNow := k\<rparr>, sampleItem)) [0..<60]) queued = Some s'"
    using seq by (simp add: o_def)
  have d: "drop (length ?runs - 50) ?runs =
      map (\<lambda>k. (goodWorld\<lparr>dateNow := k\<rparr>, sampleItem, 2)) [10..<60]"
    by (simp add: drop_map)
  have hh: "downloadHistory s' =
      rev (map (\<lambda>k. historyItemOf (goodWorld\<lparr>dateNow := k\<rparr>) sampleItem) [10..<60])"
    using h unfolding d by (simp add: o_def)
  have "length (downloadHistory s') = 50"
    "map h_id (downloadHistory s') = rev (map toString [10..<60])"
    by (simp_all add: hh rev_map [symmetric] o_def historyItemOf_def del: upt_Suc)
  with all seq' show ?thesis by simp
qed

section \<open>The batch\<close>

lemma afterRun_ids [simp]:
  "map m_id (mediaItems (afterRun w item n s)) = map m_id (mediaItems s)"
  by (simp add: afterRun_def o_def cong: if_cong)

lemma afterRun_effects [simp]:
  "effects (afterRun w item n s) = effects s @ runEffects w item n"
  by (simp add: afterRun_def)

lemma afterRun_nth:
  "i < length (mediaItems s) \<Longrightarrow>
   mediaItems (afterRun w item n s) ! i =
     (if m_id (mediaItems s ! i) = m_id item
      then (mediaItems s ! i)\<lparr>m_status := outcome w item n, m_progress := finalProgress w item n\<rparr>
      else mediaItems s ! i)"
  by (simp add: afterRun_def)

lemma outcome_terminal: "outcome w item n = Completed \<or> outcome w item n = Error"
  by (simp add: outcome_def)

lemma downloadEach_settles:
  assumes "\<forall>j<length items. settles (ws (k + j)) (items ! j) (ns (k + j))"
  shows "\<exists>s'. downloadEach ws k items s = Some s'
     \<and> (\<exists>E. effects s' = effects s @ E \<and> marks E = batchMarks ws ns k items)
     \<and> map m_id (mediaItems s') = map m_id (mediaItems s)
     \<and> (\<forall>i<length (mediaItems s).
          (m_id (mediaItems s ! i) \<notin> m_id ` set items \<longrightarrow> mediaItems s' ! i = mediaItems s ! i)
          \<and> (m_id (mediaItems s ! i) \<in> m_id ` set items \<longrightarrow>
               m_status (mediaItems s' ! i) = Completed \<or> m_status (mediaItems s' ! i) = Error))"
  using assms
proof (induction items arbitrary: k s)
  case Nil
  show ?case by simp
next
  case (Cons item rest)
  let ?s1 = "afterRun (ws k) item (ns k) s"
  let ?s2 = "?s1\<lparr>effects := effects ?s1 @ [Delayed 500]\<rparr>"
  have st: "settles (ws k) item (ns k)"
    using Cons.prems [rule_format, of 0] by simp
  have run: "downloadFile (ws k) item s = Some ?s1"
    using st by (rule downloadFile_settles)
  have rest: "\<forall>j<length rest. settles (ws (Suc k + j)) (rest ! j) (ns (Suc k + j))"
  proof (intro allI impI)
    fix j assume "j < length rest"
    then show "settles (ws (Suc k + j)) (rest ! j) (ns (Suc k + j))"
      using Cons.prems [rule_format, of "Suc j"] by simp
  qed
  from Cons.IH [OF rest, of ?s2] obtain s' E where
    each: "downloadEach ws (Suc k) rest ?s2 = Some s'"
    and eff: "effects s' = effects ?s2 @ E" "marks E = batchMarks ws ns (Suc k) rest"
    and ids: "map m_id (mediaItems s') = map m_id (mediaItems ?s2)"
    and items: "\<forall>i<length (mediaItems ?s2).
          (m_id (mediaItems ?s2 ! i) \<notin> m_id ` set rest \<longrightarrow> mediaItems s' ! i = mediaItems ?s2 ! i)
          \<and> (m_id (mediaItems ?s2 ! i) \<in> m_id ` set rest \<longrightarrow>
               m_status (mediaItems s' ! i) = Completed \<or> m_status (mediaItems s' ! i) = Error)"
    by blast
  have a: "downloadEach ws k (item # rest) s = Some s'"
    using run each by simp
  have b: "effects s' = effects s @ (runEffects (ws k) item (ns k) @ [Delayed 500] @ E)"
    using eff(1) by simp
  have c: "marks (runEffects (ws k) item (ns k) @ [Delayed 500] @ E) =
      batchMarks ws ns k (item # rest)"
    by (simp add: marks_runEffects eff(2))
  have d: "map m_id (mediaItems s') = map m_id (mediaItems s)"
    using ids by simp
  have e: "\<forall>i<length (mediaItems s).
          (m_id (mediaItems s ! i) \<notin> m_id ` set (item # rest) \<longrightarrow> mediaItems s' ! i = mediaItems s ! i)
          \<and> (m_id (mediaItems s ! i) \<in> m_id ` set (item # rest) \<longrightarrow>
               m_status (mediaItems s' ! i) = Completed \<or> m_status (mediaItems s' ! i) = Error)"
  proof (intro allI impI)
    fix i assume i: "i < length (mediaItems s)"
    have l2: "i < length (mediaItems ?s2)" using i by (simp add: afterRun_def)
    have n2: "mediaItems ?s2 ! i = mediaItems ?s1 ! i" by simp
    have id2: "m_id (mediaItems ?s2 ! i) = m_id (mediaItems s ! i)"
      using i by (simp add: afterRun_nth)
    note it = items [rule_format, OF l2, unfolded id2]
    show "(m_id (mediaItems s ! i) \<notin> m_id ` set (item # rest) \<longrightarrow> mediaItems s' ! i = mediaItems s ! i)
          \<and> (m_id (mediaItems s ! i) \<in> m_id ` set (item # rest) \<longrightarrow>
               m_status (mediaItems s' ! i) = Completed \<or> m_status (mediaItems s' ! i) = Error)"
    proof (cases "m_id (mediaItems s ! i) \<in> m_id ` set rest")
      case True
      then show ?thesis using it by simp
    next
      case False
      then have same: "mediaItems s' ! i = mediaItems ?s1 ! i" using it n2 by simp
      show ?thesis
      proof (cases "m_id (mediaItems s ! i) = m_id item")
        case True
        then have "m_status (mediaItems s' ! i) = outcome (ws k) item (ns k)"
          using same i by (simp add: afterRun_nth)
        then show ?thesis using True outcome_terminal [of "ws k" item "ns k"] by auto
      next
        case False
        then have "mediaItems s' ! i = mediaItems s ! i"
          using same i by (simp add: afterRun_nth)
        then show ?thesis using False \<open>m_id (mediaItems s ! i) \<notin> m_id ` set rest\<close> by auto
      qed
    qed
  qed
  show ?case
    using a b c d e by blast
qed




lemma pendingItems_mixed: "pendingItems mixed = [itemA, itemC]"
  by (simp add: pendingItems_def mixed_def itemA_def itemB_def itemC_def sampleItem_def)

lemma settles_mixed_0: "settles (mixedWorlds 0) itemA 2"
  by (simp add: settles_def fails_def mixedWorlds_def missingWorld_def ok_def)

lemma settles_mixed_1: "settles (mixedWorlds 1) itemC 2"
  by (auto simp add: settles_def succeeds_def mixedWorlds_def goodWorld_def ok_def endsAt_iff
      goodReader_def)




section \<open>The history log under the commands\<close>

text \<open>
  Whether a run that settles succeeds does not depend on the read it is said to settle
  at; and a batch that returns has left, for its successful runs and for no other, one
  entry each, in the order of the runs.
\<close>

lemma endsAt_unique: "endsAt rd n \<Longrightarrow> endsAt rd n' \<Longrightarrow> n = n'"
proof (rule ccontr)
  assume a: "endsAt rd n" and b: "endsAt rd n'" and ne: "n \<noteq> n'"
  then have "n < n' \<or> n' < n" by arith
  then show False
    using a b by (auto simp add: endsAt_iff)
qed

lemma succeeds_independent:
  "settles w item n \<Longrightarrow> settles w item n' \<Longrightarrow> succeeds w item n = succeeds w item n'"
  by (auto simp add: settles_def succeeds_def fails_def dest: endsAt_unique
      split: fetchResult.splits option.splits if_splits)

lemma batchEntries_cong:
  "(\<forall>j\<ge>k. ns j = ns' j) \<Longrightarrow> batchEntries ws ns k items = batchEntries ws ns' k items"
proof (induction items arbitrary: k)
  case Nil
  show ?case by simp
next
  case (Cons item rest)
  have "\<forall>j\<ge>Suc k. ns j = ns' j" using Cons.prems by simp
  then have "batchEntries ws ns (Suc k) rest = batchEntries ws ns' (Suc k) rest"
    by (rule Cons.IH)
  moreover have "ns k = ns' k" using Cons.prems by simp
  ultimately show ?case by simp
qed

lemma downloadEach_entries:
  "downloadEach ws k items s = Some s' \<Longrightarrow>
   \<exists>ns. (\<forall>j<length items. settles (ws (k + j)) (items ! j) (ns (k + j)))
      \<and> downloadHistory s' =
          foldr boundedAppend (rev (batchEntries ws ns k items)) (downloadHistory s)"
proof (induction items arbitrary: k s)
  case Nil
  then show ?case by simp
next
  case (Cons item rest)
  from Cons.prems obtain s1 where
    s1: "downloadFile (ws k) item s = Some s1"
    and r: "downloadEach ws (Suc k) rest (s1\<lparr>effects := effects s1 @ [Delayed 500]\<rparr>) = Some s'"
    by (auto split: option.splits)
  from downloadFile_Some_afterRun [OF s1] obtain n0 where
    n0: "settles (ws k) item n0" and a: "s1 = afterRun (ws k) item n0 s"
    by blast
  from Cons.IH [OF r] obtain ns' where
    st: "\<forall>j<length rest. settles (ws (Suc k + j)) (rest ! j) (ns' (Suc k + j))"
    and h: "downloadHistory s' =
          foldr boundedAppend (rev (batchEntries ws ns' (Suc k) rest)) (downloadHistory s1)"
    by auto
  let ?ns = "ns'(k := n0)"
  have c: "batchEntries ws ?ns (Suc k) rest = batchEntries ws ns' (Suc k) rest"
    by (rule batchEntries_cong) simp
  have h1: "downloadHistory s1 =
      foldr boundedAppend
        (if succeeds (ws k) item n0 then [historyItemOf (ws k) item] else []) (downloadHistory s)"
    by (simp add: a afterRun_def)
  have x: "\<forall>j<length (item # rest). settles (ws (k + j)) ((item # rest) ! j) (?ns (k + j))"
  proof (intro allI impI)
    fix j assume j: "j < length (item # rest)"
    show "settles (ws (k + j)) ((item # rest) ! j) (?ns (k + j))"
    proof (cases j)
      case 0
      then show ?thesis using n0 by simp
    next
      case (Suc j')
      then have "j' < length rest" using j by simp
      then have "settles (ws (Suc k + j')) (rest ! j') (ns' (Suc k + j'))" using st by blast
      then show ?thesis using Suc by simp
    qed
  qed
  have y: "downloadHistory s' =
          foldr boundedAppend (rev (batchEntries ws ?ns k (item # rest))) (downloadHistory s)"
    by (simp add: c h h1)
  from x y show ?case by blast
qed

lemma foldr_boundedAppend_take:
  "es \<noteq> [] \<Longrightarrow> foldr boundedAppend es h = take 50 (es @ h)"
proof (induction es)
  case Nil
  then show ?case by simp
next
  case (Cons e es)
  show ?case
  proof (cases "es = []")
    case True
    then show ?thesis by (simp add: boundedAppend_def)
  next
    case False
    then have "foldr boundedAppend es h = take 50 (es @ h)" by (rule Cons.IH)
    then have "foldr boundedAppend (e # es) h = boundedAppend e (take 50 (es @ h))" by simp
    also have "\<dots> = e # take 49 (take 50 (es @ h))" by (simp only: boundedAppend_def)
    also have "\<dots> = take 50 ((e # es) @ h)" by (simp del: take_append)
    finally show ?thesis .
  qed
qed


lemma exec_history_same:
  assumes "exec parse c s = Some s'"
    and "c = ClearCompleted \<or> (\<exists>now url. c = AddMediaItem now url) \<or> (\<exists>ident. c = RemoveMediaItem ident)"
  shows "downloadHistory s' = downloadHistory s"
  using assms
  by (auto simp add: clearCompleted_def removeMediaItem_def addMediaItem_history split: sum.splits)

lemma succeeds_good: "succeeds goodWorld sampleItem 2"
  by (auto simp add: succeeds_def goodWorld_def ok_def endsAt_iff goodReader_def)


text \<open>
  Claim C9, as the code has it. A command of the view that returns changes the history
  in one of two ways only. \<open>ClearHistory\<close> empties it. Every other command leaves a
  history built from the old one by bounded insertions at the head: none at all for
  \<open>AddMediaItem\<close>, \<open>RemoveMediaItem\<close> and \<open>ClearCompleted\<close>; for \<open>DownloadFile\<close> the
  one of the run's own entry when the run succeeds and none when it fails; for
  \<open>DownloadAll\<close> the insertions, in the order of the runs, of the entries of the runs
  that succeed, and of no other entry. So after a batch the history is the old one
  when no run succeeded, and otherwise the first 50 of the entries of the successful
  runs, most recent first, followed by the old entries in their old order. No command
  rewrites an entry in place.
\<close>

theorem history_mutations:
  assumes "exec parse c s = Some s'"
  shows "(c = ClearHistory \<longrightarrow> downloadHistory s' = [])
     \<and> (c \<noteq> ClearHistory \<longrightarrow>
          (\<exists>es. downloadHistory s' = foldr boundedAppend es (downloadHistory s)))
     \<and> (c = ClearCompleted \<or> (\<exists>now url. c = AddMediaItem now url)
          \<or> (\<exists>ident. c = RemoveMediaItem ident)
        \<longrightarrow> downloadHistory s' = downloadHistory s)
     \<and> (\<forall>w item. c = DownloadFile w item \<longrightarrow>
          downloadHistory s' = downloadHistory s
          \<or> downloadHistory s' = boundedAppend (historyItemOf w item) (downloadHistory s))
     \<and> (\<forall>w item. c = DownloadFile w item \<longrightarrow>
          (\<exists>n. settles w item n
             \<and> downloadHistory s' =
                 (if succeeds w item n
                  then boundedAppend (historyItemOf w item) (downloadHistory s)
                  else downloadHistory s)))
     \<and> (\<forall>ws. c = DownloadAll ws \<longrightarrow>
          (\<exists>ns. (\<forall>k<length (pendingItems s). settles (ws k) (pendingItems s ! k) (ns k))
             \<and> downloadHistory s' =
                 foldr boundedAppend (rev (batchEntries ws ns 0 (pendingItems s)))
                   (downloadHistory s)
             \<and> downloadHistory s' =
                 (if batchEntries ws ns 0 (pendingItems s) = [] then downloadHistory s
                  else take 50 (rev (batchEntries ws ns 0 (pendingItems s)) @ downloadHistory s))))"
proof (intro conjI)
  show "c = ClearHistory \<longrightarrow> downloadHistory s' = []"
    using exec_history [OF assms] by simp
  show "c \<noteq> ClearHistory \<longrightarrow>
          (\<exists>es. downloadHistory s' = foldr boundedAppend es (downloadHistory s))"
    using exec_history [OF assms] by simp
  show "c = ClearCompleted \<or> (\<exists>now url. c = AddMediaItem now url)
          \<or> (\<exists>ident. c = RemoveMediaItem ident)
        \<longrightarrow> downloadHistory s' = downloadHistory s"
    using exec_history_same [OF assms] by blast
  show "\<forall>w item. c = DownloadFile w item \<longrightarrow>
          downloadHistory s' = downloadHistory s
          \<or> downloadHistory s' = boundedAppend (historyItemOf w item) (downloadHistory s)"
  proof (intro allI impI)
    fix w item assume "c = DownloadFile w item"
    then have "downloadFile w item s = Some s'" using assms by simp
    then show "downloadHistory s' = downloadHistory s
          \<or> downloadHistory s' = boundedAppend (historyItemOf w item) (downloadHistory s)"
      by (rule downloadFile_history)
  qed
  show "\<forall>w item. c = DownloadFile w item \<longrightarrow>
          (\<exists>n. settles w item n
             \<and> downloadHistory s' =
                 (if succeeds w item n
                  then boundedAppend (historyItemOf w item) (downloadHistory s)
                  else downloadHistory s))"
  proof (intro allI impI)
    fix w item assume "c = DownloadFile w item"
    then have "downloadFile w item s = Some s'" using assms by simp
    from downloadFile_Some_afterRun [OF this] obtain n where
      n: "settles w item n" "s' = afterRun w item n s"
      by blast
    have "downloadHistory s' =
                 (if succeeds w item n
                  then boundedAppend (historyItemOf w item) (downloadHistory s)
                  else downloadHistory s)"
      by (simp add: n(2) afterRun_def)
    with n(1) show "\<exists>n. settles w item n
             \<and> downloadHistory s' =
                 (if succeeds w item n
                  then boundedAppend (historyItemOf w item) (downloadHistory s)
                  else downloadHistory s)"
      by blast
  qed
  show "\<forall>ws. c = DownloadAll ws \<longrightarrow>
          (\<exists>ns. (\<forall>k<length (pendingItems s). settles (ws k) (pendingItems s ! k) (ns k))
             \<and> downloadHistory s' =
                 foldr boundedAppend (rev (batchEntries ws ns 0 (pendingItems s)))
                   (downloadHistory s)
             \<and> downloadHistory s' =
                 (if batchEntries ws ns 0 (pendingItems s) = [] then downloadHistory s
                  else take 50 (rev (batchEntries ws ns 0 (pendingItems s)) @ downloadHistory s)))"
  proof (intro allI impI)
    fix ws assume "c = DownloadAll ws"
    then have "downloadEach ws 0 (pendingItems s) s = Some s'"
      using assms by (simp add: downloadAll_def)
    from downloadEach_entries [OF this] obtain ns where
      st: "\<forall>j<length (pendingItems s). settles (ws (0 + j)) (pendingItems s ! j) (ns (0 + j))"
      and h: "downloadHistory s' =
          foldr boundedAppend (rev (batchEntries ws ns 0 (pendingItems s))) (downloadHistory s)"
      by blast
    have st': "\<forall>k<length (pendingItems s). settles (ws k) (pendingItems s ! k) (ns k)"
      using st by simp
    have t: "downloadHistory s' =
                 (if batchEntries ws ns 0 (pendingItems s) = [] then downloadHistory s
                  else take 50 (rev (batchEntries ws ns 0 (pendingItems s)) @ downloadHistory s))"
    proof (cases "batchEntries ws ns 0 (pendingItems s) = []")
      case True
      then show ?thesis using h by simp
    next
      case False
      then have "rev (batchEntries ws ns 0 (pendingItems s)) \<noteq> []" by simp
      from foldr_boundedAppend_take [OF this, of "downloadHistory s"] h False
      show ?thesis by simp
    qed
    from st' h t show "\<exists>ns. (\<forall>k<length (pendingItems s). settles (ws k) (pendingItems s ! k) (ns k))
             \<and> downloadHistory s' =
                 foldr boundedAppend (rev (batchEntries ws ns 0 (pendingItems s)))
                   (downloadHistory s)
             \<and> downloadHistory s' =
                 (if batchEntries ws ns 0 (pendingItems s) = [] then downloadHistory s
                  else take 50 (rev (batchEntries ws ns 0 (pendingItems s)) @ downloadHistory s))"
      by blast
  qed
qed


theorem history_mutations_witness:
  "exec URL_pathname (DownloadFile goodWorld sampleItem) queued =
     Some (afterRun goodWorld sampleItem 2 queued)
   \<and> downloadHistory (afterRun goodWorld sampleItem 2 queued) =
       boundedAppend (historyItemOf goodWorld sampleItem) (downloadHistory queued)
   \<and> (\<exists>s'. exec URL_pathname (DownloadAll mixedWorlds) mixed = Some s'
        \<and> downloadHistory s' = [historyItemOf goodWorld itemC])"
proof -
  have x: "exec URL_pathname (DownloadFile goodWorld sampleItem) queued =
     Some (afterRun goodWorld sampleItem 2 queued)"
    using downloadFile_succeeds_afterRun [OF succeeds_good, of queued] by simp
  have "downloadHistory (afterRun goodWorld sampleItem 2 queued) \<noteq> downloadHistory queued"
    using succeeds_good by (simp add: afterRun_def boundedAppend_def queued_def)
  with history_mutations [OF x] x
  have one: "downloadHistory (afterRun goodWorld sampleItem 2 queued) =
       boundedAppend (historyItemOf goodWorld sampleItem) (downloadHistory queued)"
    by simp
  have "\<forall>j<length (pendingItems mixed).
      settles (mixedWorlds (0 + j)) (pendingItems mixed ! j) ((\<lambda>k. 2) (0 + j))"
  proof (intro allI impI)
    fix j assume "j < length (pendingItems mixed)"
    then have "j = 0 \<or> j = 1" by (auto simp add: pendingItems_mixed)
    then show "settles (mixedWorlds (0 + j)) (pendingItems mixed ! j) ((\<lambda>k. 2) (0 + j))"
      using settles_mixed_0 settles_mixed_1 by (auto simp add: pendingItems_mixed)
  qed
  from downloadEach_settles [OF this, of mixed] obtain s' where
    "downloadEach mixedWorlds 0 (pendingItems mixed) mixed = Some s'"
    by blast
  then have y: "exec URL_pathname (DownloadAll mixedWorlds) mixed = Some s'"
    by (simp add: downloadAll_def)
  from history_mutations [OF y] obtain ns where
    st: "\<forall>k<length (pendingItems mixed). settles (mixedWorlds k) (pendingItems mixed ! k) (ns k)"
    and h: "downloadHistory s' =
        foldr boundedAppend (rev (batchEntries mixedWorlds ns 0 (pendingItems mixed)))
          (downloadHistory mixed)"
    by blast
  have s0: "settles (mixedWorlds 0) itemA (ns 0)"
    using st [rule_format, of 0] by (simp add: pendingItems_mixed)
  have s1: "settles (mixedWorlds 1) itemC (ns 1)"
    using st [rule_format, of 1] by (simp add: pendingItems_mixed)
  have f0: "\<not> succeeds (mixedWorlds 0) itemA (ns 0)"
    using succeeds_independent [OF s0 settles_mixed_0]
    by (simp add: succeeds_def mixedWorlds_def missingWorld_def ok_def)
  have "succeeds (mixedWorlds 1) itemC 2"
    by (auto simp add: succeeds_def mixedWorlds_def goodWorld_def ok_def endsAt_iff goodReader_def)
  then have f1: "succeeds (mixedWorlds 1) itemC (ns 1)"
    using succeeds_independent [OF s1 settles_mixed_1] by simp
  have w1: "mixedWorlds 1 = goodWorld" by (simp add: mixedWorlds_def)
  have "batchEntries mixedWorlds ns 0 (pendingItems mixed) = [historyItemOf goodWorld itemC]"
    using f0 f1 w1 by (simp add: pendingItems_mixed)
  then have "downloadHistory s' = [historyItemOf goodWorld itemC]"
    using h by (simp add: boundedAppend_def mixed_def)
  with x one y show ?thesis by simp
qed

text \<open>
  Claim C9 as it was stated fails: the view offers \<open>clearHistory\<close>, which removes every
  entry, whatever the length of the history. Here it removes the single entry that a
  completed download has left.
\<close>

theorem clearHistory_removes_entries:
  "downloadFile goodWorld sampleItem queued = Some (afterRun goodWorld sampleItem 2 queued)
   \<and> downloadHistory (afterRun goodWorld sampleItem 2 queued) = [historyItemOf goodWorld sampleItem]
   \<and> map_option downloadHistory
       (exec URL_pathname ClearHistory (afterRun goodWorld sampleItem 2 queued)) = Some []"
  using downloadFile_succeeds_afterRun [OF succeeds_good, of queued] succeeds_good
  by (simp add: afterRun_def boundedAppend_def queued_def clearHistory_def)

end
